theory Spec2Isabelle
  imports Main "HOL-Library.Word" "HOL-Library.Monad_Syntax" "HOL-Library.List_Lexorder"
    "HOL-Library.Code_Target_Nat"
begin

unbundle bit_operations_syntax

section \<open>Values, errors and panics\<close>

text \<open>
  Go's \<open>uint64\<close> is a 64-bit word, a \<open>byte\<close> an 8-bit word, a \<open>[]byte\<close> and a Go
  \<open>string\<close> a list of bytes. Go's \<open>int\<close> only ever holds list lengths and positions
  here and is a \<open>nat\<close>.
\<close>

type_synonym u64 = "64 word"
type_synonym byte = "8 word"
type_synonym bytes = "byte list"

text \<open>
  The error values: \<open>EOF\<close> is \<open>io.EOF\<close>; \<open>ErrNotFound\<close>, \<open>ErrOutOfOrder\<close> and
  \<open>ErrPageFull\<close> are the package's \<open>errNotFound\<close>, \<open>errOutOfOrder\<close> and \<open>errPageFull\<close>;
  \<open>ErrKeyRequired\<close>, \<open>ErrKeyTooLarge\<close> and \<open>ErrValueTooLarge\<close> are the errors of Bolt's
  \<open>Put\<close>; \<open>ErrFmt\<close> stands for the errors built with \<open>fmt.Errorf\<close>, \<open>ErrIO\<close> for a
  failure of a store to begin or commit a transaction; \<open>ErrTxNotWritable\<close> is Bolt's
  error of a write in a read-only transaction. A Go result \<open>(uint64, error)\<close>
  is a pair of a value and an \<open>error option\<close>, \<open>None\<close> being \<open>nil\<close>: the code stores
  both halves separately (\<open>it.v1, it.e1 = it.i1.Next()\<close>), so the model keeps both.
\<close>

datatype error =
    EOF | ErrNotFound | ErrOutOfOrder | ErrPageFull
  | ErrKeyRequired | ErrKeyTooLarge | ErrValueTooLarge | ErrFmt | ErrIO
  | ErrTxNotWritable

text \<open>A run-time panic of the Go program: it is not an \<open>error\<close> value and unwinds the caller.\<close>

datatype panic = NilDereference | IndexOutOfRange

type_synonym result = "u64 \<times> error option"

section \<open>\<open>sort.Search\<close>\<close>

text \<open>
  \<open>sort.Search(n, f)\<close> of the Go library, as it is written there: a binary search for
  the smallest index in \<open>[0, n)\<close> at which \<open>f\<close> holds, \<open>n\<close> if there is none.
  \<^verbatim>\<open>
  i, j := 0, n
  for i < j {
      h := int(uint(i+j) >> 1)
      if !f(h) { i = h + 1 } else { j = h }
  }
  return i
  \<close>
\<close>

function search_loop :: "(nat \<Rightarrow> bool) \<Rightarrow> nat \<Rightarrow> nat \<Rightarrow> nat" where
  "search_loop f i j =
     (if i < j then
        (let h = (i + j) div 2 in
         if \<not> f h then search_loop f (h + 1) j else search_loop f i h)
      else i)"
  by pat_completeness auto
termination
  by (relation "measure (\<lambda>(f, i, j). j - i)") auto

declare search_loop.simps [simp del]

definition sort_Search :: "nat \<Rightarrow> (nat \<Rightarrow> bool) \<Rightarrow> nat" where
  "sort_Search n f = search_loop f 0 n"

section \<open>\<open>plainSkiplistIterator\<close>\<close>

text \<open>
  The skiplist iterator over an in-memory map: \<open>plainSkiplistIterator{m, keys, pos}\<close>.
  The Go map is an association list read with \<open>map_of\<close>; \<open>it.m[k]\<close> is Go's zero
  value for a key that is absent. \<open>newPlainSkiplistIterator\<close> collects the keys of the
  map, each once, and sorts them.
\<close>

record plainSkiplistIterator =
  psl_m :: "(u64 \<times> u64) list"
  psl_keys :: "u64 list"
  psl_pos :: nat

definition newPlainSkiplistIterator :: "(u64 \<times> u64) list \<Rightarrow> plainSkiplistIterator" where
  "newPlainSkiplistIterator m =
     \<lparr>psl_m = m, psl_keys = sort (remdups (map fst m)), psl_pos = 0\<rparr>"

text \<open>
  \<^verbatim>\<open>
  func (it *plainSkiplistIterator) next() (uint64, uint64, error) {
      if it.pos >= len(it.keys) { return 0, 0, io.EOF }
      k := it.keys[it.pos]
      it.pos++
      return k, it.m[k], nil
  }
  \<close>
\<close>

definition plainSkiplistIterator_next ::
    "plainSkiplistIterator \<Rightarrow> (u64 \<times> u64 \<times> error option) \<times> plainSkiplistIterator" where
  "plainSkiplistIterator_next it =
     (if psl_pos it \<ge> length (psl_keys it) then ((0, 0, Some EOF), it)
      else
        (let k = psl_keys it ! psl_pos it in
         ((k, (case map_of (psl_m it) k of Some p \<Rightarrow> p | None \<Rightarrow> 0), None),
          it\<lparr>psl_pos := psl_pos it + 1\<rparr>)))"

text \<open>
  \<^verbatim>\<open>
  func (it *plainSkiplistIterator) seek(id uint64) (uint64, uint64, error) {
      pos := sort.Search(len(it.keys), func(i int) bool { return it.keys[i] >= id })
      // The skiplist iterator points to the element at or before the last value.
      if pos > 0 && it.keys[pos] > id {
          it.pos = pos - 1
      } else {
          it.pos = pos
      }
      return it.next()
  }
  \<close>
  \<open>&&\<close> evaluates \<open>it.keys[pos]\<close> only when \<open>pos > 0\<close>; the index expression panics
  when \<open>pos\<close> is not below \<open>len(it.keys)\<close>. The indices that \<open>sort.Search\<close> hands to
  its predicate are below \<open>len(it.keys)\<close> (lemma \<open>search_loop_cong\<close>: the result does
  not depend on the predicate outside \<open>[0, n)\<close>).
\<close>

definition plainSkiplistIterator_seek ::
    "plainSkiplistIterator \<Rightarrow> u64 \<Rightarrow>
       panic + (u64 \<times> u64 \<times> error option) \<times> plainSkiplistIterator" where
  "plainSkiplistIterator_seek it tid =
     (let pos = sort_Search (length (psl_keys it)) (\<lambda>i. psl_keys it ! i \<ge> tid) in
      if pos > 0 then
        (if pos < length (psl_keys it) then
           (if psl_keys it ! pos > tid
            then Inr (plainSkiplistIterator_next (it\<lparr>psl_pos := pos - 1\<rparr>))
            else Inr (plainSkiplistIterator_next (it\<lparr>psl_pos := pos\<rparr>)))
         else Inl IndexOutOfRange)
      else Inr (plainSkiplistIterator_next (it\<lparr>psl_pos := pos\<rparr>)))"

section \<open>The key/value store\<close>

subsection \<open>Byte encodings\<close>

text \<open>
  Modelled from the spec: \<open>encodeUint64\<close> and \<open>decodeUint64\<close>, helpers of the package
  whose source is not among the files. The spec gives the encoding: "\<open>encode_u64\<close>:
  8-byte big-endian (used as KV keys so lexicographic order equals numeric order)".
  The bytes are those of Go's \<open>binary.BigEndian.PutUint64\<close>, \<open>byte(x >> 56)\<close> first and
  \<open>byte(x)\<close> last. Decoding reads the first 8 bytes; on a shorter slice Go's
  \<open>binary.BigEndian.Uint64\<close> panics, and every key and value of a skiplist bucket is 8
  bytes long (\<open>skiplist_bucket\<close> below, kept by \<open>append\<close>).
\<close>

definition encodeUint64 :: "u64 \<Rightarrow> bytes" where
  "encodeUint64 x = map (\<lambda>i. ucast (drop_bit (8 * i) x)) [7, 6, 5, 4, 3, 2, 1, 0]"

definition decodeUint64 :: "bytes \<Rightarrow> u64" where
  "decodeUint64 b = foldl (\<lambda>a x. a * 256 + ucast x) 0 (take 8 b)"

subsection \<open>Buckets and cursors\<close>

text \<open>
  The Bolt store is a library outside the repository; the model takes its documented
  contract. A bucket holds key/value pairs in ascending byte order of the keys
  (\<open>bytes.Compare\<close>, the lexicographic order of byte lists) and a sequence counter.
  \<open>Get\<close> returns \<open>nil\<close> for an absent key. \<open>Put\<close> inserts or replaces; in a writable
  transaction it fails only for an empty key (\<open>ErrKeyRequired\<close>), a key above
  \<open>MaxKeySize\<close> or a value above \<open>MaxValueSize\<close>. \<open>NextSequence\<close> increments the
  counter and returns it.
\<close>

type_synonym kv = "(bytes \<times> bytes) list"

definition MaxKeySize :: nat where
  "MaxKeySize = 32768"

definition MaxValueSize :: nat where
  "MaxValueSize = 2147483646"

definition bucket_Get :: "kv \<Rightarrow> bytes \<Rightarrow> bytes option" where
  "bucket_Get b k = map_of b k"

fun bucket_insert :: "bytes \<Rightarrow> bytes \<Rightarrow> kv \<Rightarrow> kv" where
  "bucket_insert k v [] = [(k, v)]"
| "bucket_insert k v ((k', v') # b) =
     (if k < k' then (k, v) # (k', v') # b
      else if k = k' then (k, v) # b
      else (k', v') # bucket_insert k v b)"

definition bucket_Put :: "kv \<Rightarrow> bytes \<Rightarrow> bytes \<Rightarrow> error option \<times> kv" where
  "bucket_Put b k v =
     (if length k = 0 then (Some ErrKeyRequired, b)
      else if length k > MaxKeySize then (Some ErrKeyTooLarge, b)
      else if length v > MaxValueSize then (Some ErrValueTooLarge, b)
      else (None, bucket_insert k v b))"

text \<open>
  A cursor is at an entry of its bucket (\<open>Some i\<close>, the index of the entry) or at none.
  Each move returns the entry it reaches, \<open>None\<close> for Go's \<open>nil, nil\<close>. \<open>Seek\<close> goes to
  the first entry whose key is not below the target; \<open>Prev\<close> at the first entry and
  \<open>Next\<close> at the last leave the cursor at no entry.
\<close>

type_synonym cursor = "nat option"

definition cursor_Seek :: "kv \<Rightarrow> bytes \<Rightarrow> (bytes \<times> bytes) option \<times> cursor" where
  "cursor_Seek b key =
     (let i = length (takeWhile (\<lambda>e. fst e < key) b) in
      if i < length b then (Some (b ! i), Some i) else (None, None))"

definition cursor_First :: "kv \<Rightarrow> (bytes \<times> bytes) option \<times> cursor" where
  "cursor_First b = (if b = [] then (None, None) else (Some (b ! 0), Some 0))"

definition cursor_Last :: "kv \<Rightarrow> (bytes \<times> bytes) option \<times> cursor" where
  "cursor_Last b =
     (if b = [] then (None, None) else (Some (b ! (length b - 1)), Some (length b - 1)))"

definition cursor_Prev :: "kv \<Rightarrow> cursor \<Rightarrow> (bytes \<times> bytes) option \<times> cursor" where
  "cursor_Prev b c =
     (case c of
        None \<Rightarrow> (None, None)
      | Some i \<Rightarrow>
          if 0 < i \<and> i - 1 < length b then (Some (b ! (i - 1)), Some (i - 1))
          else (None, None))"

definition cursor_Next :: "kv \<Rightarrow> cursor \<Rightarrow> (bytes \<times> bytes) option \<times> cursor" where
  "cursor_Next b c =
     (case c of
        None \<Rightarrow> (None, None)
      | Some i \<Rightarrow>
          if i + 1 < length b then (Some (b ! (i + 1)), Some (i + 1))
          else (None, None))"

subsection \<open>\<open>boltSkiplistCursor\<close>\<close>

text \<open>
  \<open>boltSkiplistCursor{k, c, bkt}\<close> of \<open>postings.go\<close>: the cursor \<open>c\<close> moves over the
  bucket \<open>bkt\<close> of one postings key. An error of the store is passed on as it is.
\<close>

record boltSkiplistCursor =
  sc_k :: u64
  sc_c :: cursor
  sc_bkt :: kv

text \<open>
  \<^verbatim>\<open>
  func (s *boltSkiplistCursor) next() (uint64, uint64, error) {
      db, pb := s.c.Next()
      if db == nil { return 0, 0, io.EOF }
      return decodeUint64(db), decodeUint64(pb), nil
  }
  \<close>
\<close>

definition boltSkiplistCursor_next ::
    "boltSkiplistCursor \<Rightarrow> (u64 \<times> u64 \<times> error option) \<times> boltSkiplistCursor" where
  "boltSkiplistCursor_next s =
     (case cursor_Next (sc_bkt s) (sc_c s) of
        (None, c') \<Rightarrow> ((0, 0, Some EOF), s\<lparr>sc_c := c'\<rparr>)
      | (Some (db, pb), c') \<Rightarrow> ((decodeUint64 db, decodeUint64 pb, None), s\<lparr>sc_c := c'\<rparr>))"

text \<open>
  \<^verbatim>\<open>
  func (s *boltSkiplistCursor) seek(k uint64) (uint64, uint64, error) {
      db, pb := s.c.Seek(encodeUint64(k))
      if db == nil {
          db, pb = s.c.Last()
          if db == nil { return 0, 0, io.EOF }
      }
      did, pid := decodeUint64(db), decodeUint64(pb)
      if did > k {
          dbp, pbp := s.c.Prev()
          if dbp != nil {
              did, pid = decodeUint64(dbp), decodeUint64(pbp)
          } else {
              s.c.First()
          }
      }
      return did, pid, nil
  }
  \<close>
\<close>

definition boltSkiplistCursor_seek ::
    "boltSkiplistCursor \<Rightarrow> u64 \<Rightarrow> (u64 \<times> u64 \<times> error option) \<times> boltSkiplistCursor" where
  "boltSkiplistCursor_seek s k =
     (case (case cursor_Seek (sc_bkt s) (encodeUint64 k) of
              (None, c) \<Rightarrow> cursor_Last (sc_bkt s)
            | (Some e, c) \<Rightarrow> (Some e, c)) of
        (None, c') \<Rightarrow> ((0, 0, Some EOF), s\<lparr>sc_c := c'\<rparr>)
      | (Some (db, pb), c') \<Rightarrow>
          (let did = decodeUint64 db; pid = decodeUint64 pb in
           if did > k then
             (case cursor_Prev (sc_bkt s) c' of
                (Some (dbp, pbp), c'') \<Rightarrow>
                  ((decodeUint64 dbp, decodeUint64 pbp, None), s\<lparr>sc_c := c''\<rparr>)
              | (None, c'') \<Rightarrow>
                  ((did, pid, None), s\<lparr>sc_c := snd (cursor_First (sc_bkt s))\<rparr>))
           else ((did, pid, None), s\<lparr>sc_c := c'\<rparr>)))"

text \<open>
  \<^verbatim>\<open>
  func (s *boltSkiplistCursor) append(d, p uint64) error {
      k, _ := s.c.Last()
      if k != nil && decodeUint64(k) >= uint64(d) {
          return errOutOfOrder
      }
      return s.bkt.Put(encodeUint64(d), encodeUint64(p))
  }
  \<close>
\<close>

definition boltSkiplistCursor_append ::
    "boltSkiplistCursor \<Rightarrow> u64 \<Rightarrow> u64 \<Rightarrow> error option \<times> boltSkiplistCursor" where
  "boltSkiplistCursor_append s d p =
     (case cursor_Last (sc_bkt s) of
        (k, c') \<Rightarrow>
          if k \<noteq> None \<and> decodeUint64 (fst (the k)) \<ge> d
          then (Some ErrOutOfOrder, s\<lparr>sc_c := c'\<rparr>)
          else
            (case bucket_Put (sc_bkt s) (encodeUint64 d) (encodeUint64 p) of
               (err, b') \<Rightarrow> (err, s\<lparr>sc_c := c', sc_bkt := b'\<rparr>)))"

text \<open>
  \<open>bolt.go\<close> holds an earlier \<open>boltSkiplistCursor.append\<close>, which differs in its last
  line: it stores the page ID under the page ID, \<open>s.bkt.Put(encodeUint64(p),
  encodeUint64(p))\<close>.
\<close>

definition bolt_go_boltSkiplistCursor_append ::
    "boltSkiplistCursor \<Rightarrow> u64 \<Rightarrow> u64 \<Rightarrow> error option \<times> boltSkiplistCursor" where
  "bolt_go_boltSkiplistCursor_append s d p =
     (case cursor_Last (sc_bkt s) of
        (k, c') \<Rightarrow>
          if k \<noteq> None \<and> decodeUint64 (fst (the k)) \<ge> d
          then (Some ErrOutOfOrder, s\<lparr>sc_c := c'\<rparr>)
          else
            (case bucket_Put (sc_bkt s) (encodeUint64 p) (encodeUint64 p) of
               (err, b') \<Rightarrow> (err, s\<lparr>sc_c := c', sc_bkt := b'\<rparr>)))"

text \<open>
  The buckets the skiplist code writes and reads: keys strictly ascending, as Bolt
  keeps them, and every key and value an 8-byte encoding.
\<close>

definition skiplist_bucket :: "kv \<Rightarrow> bool" where
  "skiplist_bucket b \<longleftrightarrow>
     sorted_wrt (<) (map fst b) \<and> list_all (\<lambda>e. length (fst e) = 8 \<and> length (snd e) = 8) b"

section \<open>The iterators\<close>

subsection \<open>The interfaces\<close>

text \<open>
  The interface \<open>Iterator\<close> has the methods \<open>Next\<close>, \<open>Seek\<close> and \<open>Close\<close>. Its
  implementations in the iterator source file are the iterator over a sorted list
  (\<open>plainListIterator{list, pos}\<close>), \<open>mergeIterator\<close> and \<open>intersectIterator\<close> (both with
  the fields \<open>i1, i2, v1, v2, e1, e2\<close>) and \<open>skippingIterator{skiplist, iterators, close,
  cur}\<close>. The field \<open>skiplist\<close> is of the interface \<open>skiplistIterator\<close>, which
  \<open>plainSkiplistIterator\<close> and \<open>boltSkiplistCursor\<close> implement. The field \<open>iterators\<close> is
  of the interface \<open>iteratorStore\<close>, whose \<open>get\<close> maps a pointer to an iterator: the
  model of a store is the list of its pointers, each with the iterator that \<open>get\<close>
  returns for it, and \<open>get\<close> of a pointer that is absent returns \<open>errNotFound\<close>. The
  field \<open>close\<close> is a function or \<open>nil\<close>: the model keeps the error that the function
  returns. The field \<open>cur\<close> is \<open>nil\<close> until the first \<open>Seek\<close>.

  A value of the type \<open>iterator\<close> is the state of one iterator object together with
  the states of the objects it holds. The iterators that a combinator holds are
  objects of their own, which share no state with each other, and \<open>get\<close> returns a
  new iterator on every call, as the \<open>iteratorStoreFunc\<close> of \<open>postingsStore.Iter\<close> does.
\<close>

datatype skiplistIterator =
    PlainSkiplist plainSkiplistIterator
  | BoltSkiplist boltSkiplistCursor

datatype iterator =
    PlainList "u64 list" nat
  | MergeIt iterator iterator u64 u64 "error option" "error option"
  | IntersectIt iterator iterator u64 u64 "error option" "error option"
  | SkippingIt skiplistIterator "(u64 \<times> iterator) list" "error option option" "iterator option"

text \<open>
  The methods \<open>seek\<close> and \<open>next\<close> of the interface \<open>skiplistIterator\<close>. Of the two
  implementations only \<open>plainSkiplistIterator.seek\<close> can panic.
\<close>

definition skiplist_seek ::
    "skiplistIterator \<Rightarrow> u64 \<Rightarrow> panic + (u64 \<times> u64 \<times> error option) \<times> skiplistIterator" where
  "skiplist_seek sl tid =
     (case sl of
        PlainSkiplist it \<Rightarrow>
          (case plainSkiplistIterator_seek it tid of
             Inl p \<Rightarrow> Inl p
           | Inr (r, it') \<Rightarrow> Inr (r, PlainSkiplist it'))
      | BoltSkiplist s \<Rightarrow>
          (case boltSkiplistCursor_seek s tid of (r, s') \<Rightarrow> Inr (r, BoltSkiplist s')))"

definition skiplist_next ::
    "skiplistIterator \<Rightarrow> (u64 \<times> u64 \<times> error option) \<times> skiplistIterator" where
  "skiplist_next sl =
     (case sl of
        PlainSkiplist it \<Rightarrow>
          (case plainSkiplistIterator_next it of (r, it') \<Rightarrow> (r, PlainSkiplist it'))
      | BoltSkiplist s \<Rightarrow>
          (case boltSkiplistCursor_next s of (r, s') \<Rightarrow> (r, BoltSkiplist s')))"

definition iteratorStore_get :: "(u64 \<times> iterator) list \<Rightarrow> u64 \<Rightarrow> error + iterator" where
  "iteratorStore_get store ptr =
     (case map_of store ptr of None \<Rightarrow> Inl ErrNotFound | Some it \<Rightarrow> Inr it)"

subsection \<open>\<open>plainListIterator\<close>\<close>

text \<open>\<open>newPlainListIterator\<close> sorts the list it is given; \<open>pos\<close> starts at 0.\<close>

definition newPlainListIterator :: "u64 list \<Rightarrow> iterator" where
  "newPlainListIterator l = PlainList (sort l) 0"

text \<open>
  \<^verbatim>\<open>
  func (it *plainListIterator) Next() (uint64, error) {
      if it.pos >= it.list.Len() { return 0, io.EOF }
      x := it.list[it.pos]
      it.pos++
      return x, nil
  }
  \<close>
\<close>

definition plainListIterator_Next :: "u64 list \<Rightarrow> nat \<Rightarrow> result \<times> iterator" where
  "plainListIterator_Next l pos =
     (if pos \<ge> length l then ((0, Some EOF), PlainList l pos)
      else ((l ! pos, None), PlainList l (pos + 1)))"

text \<open>
  \<^verbatim>\<open>
  func (it *plainListIterator) Seek(id uint64) (uint64, error) {
      it.pos = sort.Search(it.list.Len(), func(i int) bool { return it.list[i] >= id })
      return it.Next()
  }
  \<close>
\<close>

definition plainListIterator_Seek :: "u64 list \<Rightarrow> nat \<Rightarrow> u64 \<Rightarrow> result \<times> iterator" where
  "plainListIterator_Seek l pos tid =
     plainListIterator_Next l (sort_Search (length l) (\<lambda>i. l ! i \<ge> tid))"

subsection \<open>The methods \<open>Next\<close> and \<open>Seek\<close>\<close>

text \<open>
  A call of a method of the interface is \<open>Next()\<close> or \<open>Seek(id)\<close>. The methods of the
  combinators and of \<open>skippingIterator\<close> call the methods of the iterators they hold,
  and \<open>intersectIterator.Next\<close> is a \<open>for\<close> loop without a bound, so the dispatch is one
  partial function: \<open>None\<close> is a call that does not return. A call that returns either
  panics (\<open>Inl\<close>) or gives the Go result and the iterator as the call left it (\<open>Inr\<close>).
  \<open>pbind\<close> runs a call and hands what it gives to the rest of the method; a panic ends
  the method.
\<close>

datatype req = ReqNext | ReqSeek u64

abbreviation pbind :: "(panic + 'a) option \<Rightarrow> ('a \<Rightarrow> (panic + 'b) option) \<Rightarrow> (panic + 'b) option" where
  "pbind m f \<equiv> Option.bind m (\<lambda>r. case r of Inl p \<Rightarrow> Some (Inl p) | Inr x \<Rightarrow> f x)"

text \<open>
  The four implementations, in the order of the datatype.
  \<^verbatim>\<open>
  func (it *mergeIterator) Next() (uint64, error) {
      if it.e1 == io.EOF && it.e2 == io.EOF { return 0, io.EOF }
      if it.e1 != nil {
          if it.e1 != io.EOF { return 0, it.e1 }
          x := it.v2
          it.v2, it.e2 = it.i2.Next()
          return x, nil
      }
      if it.e2 != nil {
          if it.e2 != io.EOF { return 0, it.e2 }
          x := it.v1
          it.v1, it.e1 = it.i1.Next()
          return x, nil
      }
      if it.v1 < it.v2 {
          x := it.v1
          it.v1, it.e1 = it.i1.Next()
          return x, nil
      } else if it.v2 < it.v1 {
          x := it.v2
          it.v2, it.e2 = it.i2.Next()
          return x, nil
      } else {
          x := it.v1
          it.v1, it.e1 = it.i1.Next()
          it.v2, it.e2 = it.i2.Next()
          return x, nil
      }
  }
  func (it *mergeIterator) Seek(id uint64) (uint64, error) {
      it.v1, it.e1 = it.i1.Seek(id)
      it.v2, it.e2 = it.i2.Seek(id)
      return it.Next()
  }
  func (it *intersectIterator) Next() (uint64, error) {
      for {
          if it.e1 != nil { return 0, it.e1 }
          if it.e2 != nil { return 0, it.e2 }
          if it.v1 < it.v2 {
              it.v1, it.e1 = it.i1.Seek(it.v2)
          } else if it.v2 < it.v1 {
              it.v2, it.e2 = it.i2.Seek(it.v1)
          } else {
              v := it.v1
              it.v1, it.e1 = it.i1.Next()
              it.v2, it.e2 = it.i2.Next()
              return v, nil
          }
      }
  }
  func (it *intersectIterator) Seek(id uint64) (uint64, error) {
      it.v1, it.e1 = it.i1.Seek(id)
      it.v2, it.e2 = it.i2.Seek(id)
      return it.Next()
  }
  func (it *skippingIterator) Seek(id uint64) (uint64, error) {
      _, ptr, err := it.skiplist.seek(id)
      if err != nil { return 0, err }
      cur, err := it.iterators.get(ptr)
      if err != nil { return 0, err }
      it.cur = cur
      return it.cur.Seek(id)
  }
  func (it *skippingIterator) Next() (uint64, error) {
      if it.cur == nil { return it.Seek(0) }
      if id, err := it.cur.Next(); err == nil {
          return id, nil
      } else if err != io.EOF {
          return 0, err
      }
      _, ptr, err := it.skiplist.next()
      if err != nil { return 0, err }
      cur, err := it.iterators.get(ptr)
      if err != nil { return 0, err }
      it.cur = cur
      return it.cur.Seek(0)
  }
  \<close>
\<close>

partial_function (option) iter_run :: "req \<Rightarrow> iterator \<Rightarrow> (panic + result \<times> iterator) option" where
  "iter_run r it =
     (case it of
        PlainList l pos \<Rightarrow>
          (case r of
             ReqNext \<Rightarrow> Some (Inr (plainListIterator_Next l pos))
           | ReqSeek tid \<Rightarrow> Some (Inr (plainListIterator_Seek l pos tid)))
      | MergeIt i1 i2 v1 v2 e1 e2 \<Rightarrow>
          (case r of
             ReqSeek tid \<Rightarrow>
               pbind (iter_run (ReqSeek tid) i1) (\<lambda>((v1', e1'), i1').
               pbind (iter_run (ReqSeek tid) i2) (\<lambda>((v2', e2'), i2').
               iter_run ReqNext (MergeIt i1' i2' v1' v2' e1' e2')))
           | ReqNext \<Rightarrow>
               if e1 = Some EOF \<and> e2 = Some EOF then Some (Inr ((0, Some EOF), it))
               else if e1 \<noteq> None then
                 (if e1 \<noteq> Some EOF then Some (Inr ((0, e1), it))
                  else
                    pbind (iter_run ReqNext i2) (\<lambda>((v2', e2'), i2').
                    Some (Inr ((v2, None), MergeIt i1 i2' v1 v2' e1 e2'))))
               else if e2 \<noteq> None then
                 (if e2 \<noteq> Some EOF then Some (Inr ((0, e2), it))
                  else
                    pbind (iter_run ReqNext i1) (\<lambda>((v1', e1'), i1').
                    Some (Inr ((v1, None), MergeIt i1' i2 v1' v2 e1' e2))))
               else if v1 < v2 then
                 pbind (iter_run ReqNext i1) (\<lambda>((v1', e1'), i1').
                 Some (Inr ((v1, None), MergeIt i1' i2 v1' v2 e1' e2)))
               else if v2 < v1 then
                 pbind (iter_run ReqNext i2) (\<lambda>((v2', e2'), i2').
                 Some (Inr ((v2, None), MergeIt i1 i2' v1 v2' e1 e2')))
               else
                 pbind (iter_run ReqNext i1) (\<lambda>((v1', e1'), i1').
                 pbind (iter_run ReqNext i2) (\<lambda>((v2', e2'), i2').
                 Some (Inr ((v1, None), MergeIt i1' i2' v1' v2' e1' e2')))))
      | IntersectIt i1 i2 v1 v2 e1 e2 \<Rightarrow>
          (case r of
             ReqSeek tid \<Rightarrow>
               pbind (iter_run (ReqSeek tid) i1) (\<lambda>((v1', e1'), i1').
               pbind (iter_run (ReqSeek tid) i2) (\<lambda>((v2', e2'), i2').
               iter_run ReqNext (IntersectIt i1' i2' v1' v2' e1' e2')))
           | ReqNext \<Rightarrow>
               if e1 \<noteq> None then Some (Inr ((0, e1), it))
               else if e2 \<noteq> None then Some (Inr ((0, e2), it))
               else if v1 < v2 then
                 pbind (iter_run (ReqSeek v2) i1) (\<lambda>((v1', e1'), i1').
                 iter_run ReqNext (IntersectIt i1' i2 v1' v2 e1' e2))
               else if v2 < v1 then
                 pbind (iter_run (ReqSeek v1) i2) (\<lambda>((v2', e2'), i2').
                 iter_run ReqNext (IntersectIt i1 i2' v1 v2' e1 e2'))
               else
                 pbind (iter_run ReqNext i1) (\<lambda>((v1', e1'), i1').
                 pbind (iter_run ReqNext i2) (\<lambda>((v2', e2'), i2').
                 Some (Inr ((v1, None), IntersectIt i1' i2' v1' v2' e1' e2')))))
      | SkippingIt skiplist iterators cl cur \<Rightarrow>
          (case r of
             ReqSeek tid \<Rightarrow>
               (case skiplist_seek skiplist tid of
                  Inl p \<Rightarrow> Some (Inl p)
                | Inr ((d, ptr, err), skiplist') \<Rightarrow>
                    if err \<noteq> None
                    then Some (Inr ((0, err), SkippingIt skiplist' iterators cl cur))
                    else
                      (case iteratorStore_get iterators ptr of
                         Inl e \<Rightarrow> Some (Inr ((0, Some e), SkippingIt skiplist' iterators cl cur))
                       | Inr c \<Rightarrow>
                           pbind (iter_run (ReqSeek tid) c) (\<lambda>(res, c').
                           Some (Inr (res, SkippingIt skiplist' iterators cl (Some c'))))))
           | ReqNext \<Rightarrow>
               (case cur of
                  None \<Rightarrow> iter_run (ReqSeek 0) it
                | Some c \<Rightarrow>
                    pbind (iter_run ReqNext c) (\<lambda>((v, e), c').
                    if e = None
                    then Some (Inr ((v, None), SkippingIt skiplist iterators cl (Some c')))
                    else if e \<noteq> Some EOF
                    then Some (Inr ((0, e), SkippingIt skiplist iterators cl (Some c')))
                    else
                      (case skiplist_next skiplist of
                         ((d, ptr, err), skiplist') \<Rightarrow>
                           if err \<noteq> None
                           then Some (Inr ((0, err), SkippingIt skiplist' iterators cl (Some c')))
                           else
                             (case iteratorStore_get iterators ptr of
                                Inl e' \<Rightarrow>
                                  Some (Inr ((0, Some e'),
                                             SkippingIt skiplist' iterators cl (Some c')))
                              | Inr c2 \<Rightarrow>
                                  pbind (iter_run (ReqSeek 0) c2) (\<lambda>(res, c2').
                                  Some (Inr (res,
                                             SkippingIt skiplist' iterators cl (Some c2'))))))))))"

declare iter_run.simps [code]

text \<open>
  \<open>Merge(its...)\<close> and \<open>Intersect(its...)\<close>: \<open>nil\<close> for no iterator, else the
  iterators folded from the left into a binary tree; the fields \<open>v1, v2, e1, e2\<close> of a
  new node are Go's zero values.
\<close>

definition Merge :: "iterator list \<Rightarrow> iterator option" where
  "Merge its =
     (if length its = 0 then None
      else Some (foldl (\<lambda>i1 i2. MergeIt i1 i2 0 0 None None) (hd its) (tl its)))"

definition Intersect :: "iterator list \<Rightarrow> iterator option" where
  "Intersect its =
     (if length its = 0 then None
      else Some (foldl (\<lambda>i1 i2. IntersectIt i1 i2 0 0 None None) (hd its) (tl its)))"

text \<open>
  A method call on a value of the interface type: on \<open>nil\<close> it panics with a nil
  dereference, otherwise it is dispatched to the iterator.
\<close>

definition Iterator_Next :: "iterator option \<Rightarrow> (panic + result \<times> iterator) option" where
  "Iterator_Next it =
     (case it of None \<Rightarrow> Some (Inl NilDereference) | Some i \<Rightarrow> iter_run ReqNext i)"

definition Iterator_Seek :: "iterator option \<Rightarrow> u64 \<Rightarrow> (panic + result \<times> iterator) option" where
  "Iterator_Seek it tid =
     (case it of None \<Rightarrow> Some (Inl NilDereference) | Some i \<Rightarrow> iter_run (ReqSeek tid) i)"

text \<open>
  \<open>Close\<close> of a list iterator returns \<open>nil\<close>; \<open>Close\<close> of a combinator closes \<open>i1\<close> and,
  if that returned no error, \<open>i2\<close>; \<open>Close\<close> of a skipping iterator returns \<open>nil\<close> when
  \<open>it.close\<close> is \<open>nil\<close> and calls it otherwise.
\<close>

fun iter_close :: "iterator \<Rightarrow> error option" where
  "iter_close (PlainList l pos) = None"
| "iter_close (MergeIt i1 i2 v1 v2 e1 e2) =
     (case iter_close i1 of Some e \<Rightarrow> Some e | None \<Rightarrow> iter_close i2)"
| "iter_close (IntersectIt i1 i2 v1 v2 e1 e2) =
     (case iter_close i1 of Some e \<Rightarrow> Some e | None \<Rightarrow> iter_close i2)"
| "iter_close (SkippingIt skiplist iterators cl cur) =
     (case cl of None \<Rightarrow> None | Some e \<Rightarrow> e)"

definition Iterator_Close :: "iterator option \<Rightarrow> panic + error option" where
  "Iterator_Close it =
     (case it of None \<Rightarrow> Inl NilDereference | Some i \<Rightarrow> Inr (iter_close i))"

subsection \<open>\<open>ExpandIterator\<close>\<close>

text \<open>
  \<^verbatim>\<open>
  for v, err = it.Seek(0); err == nil; v, err = it.Next() {
      res = append(res, v)
  }
  if err == io.EOF { err = nil }
  return res, err
  \<close>
  The loop has no bound of its own: \<open>None\<close> is a run that does not return.
\<close>

partial_function (option) expand_loop ::
    "u64 list \<Rightarrow> result \<Rightarrow> iterator \<Rightarrow> (panic + u64 list \<times> error option) option" where
  "expand_loop res r it =
     (if snd r = None then
        pbind (iter_run ReqNext it) (\<lambda>(r', it'). expand_loop (res @ [fst r]) r' it')
      else Some (Inr (res, if snd r = Some EOF then None else snd r)))"

declare expand_loop.simps [code]

definition ExpandIterator :: "iterator \<Rightarrow> (panic + u64 list \<times> error option) option" where
  "ExpandIterator it =
     pbind (iter_run (ReqSeek 0) it) (\<lambda>(r, it'). expand_loop [] r it')"

section \<open>The postings store\<close>

subsection \<open>Unsigned varints\<close>

text \<open>
  \<open>binary.PutUvarint\<close> and \<open>binary.Uvarint\<close> of the Go library. \<open>putUvarint x\<close> is the
  slice \<open>buf[:n]\<close> that \<open>n := binary.PutUvarint(buf, x)\<close> fills:
  \<^verbatim>\<open>
  i := 0
  for x >= 0x80 { buf[i] = byte(x) | 0x80; x >>= 7; i++ }
  buf[i] = byte(x)
  return i + 1
  \<close>
\<close>

function putUvarint :: "u64 \<Rightarrow> bytes" where
  "putUvarint x =
     (if x \<ge> 0x80 then (ucast x OR 0x80) # putUvarint (drop_bit 7 x) else [ucast x])"
  by pat_completeness auto
termination
proof (relation "measure unat")
  show "wf (measure unat)" by simp
next
  fix x :: u64
  assume "0x80 \<le> x"
  then have "128 \<le> unat x" by (simp add: word_le_nat_alt)
  then have "unat x div 128 < unat x" by simp
  then show "(drop_bit 7 x, x) \<in> measure unat"
    by (simp add: drop_bit_eq_div unat_div)
qed

declare putUvarint.simps [simp del]

text \<open>
  \<^verbatim>\<open>
  func Uvarint(buf []byte) (uint64, int) {
      var x uint64
      var s uint
      for i, b := range buf {
          if i == MaxVarintLen64 { return 0, -(i + 1) }
          if b < 0x80 {
              if i == MaxVarintLen64-1 && b > 1 { return 0, -(i + 1) }
              return x | uint64(b)<<s, i + 1
          }
          x |= uint64(b&0x7f) << s
          s += 7
      }
      return 0, 0
  }
  \<close>
\<close>

definition MaxVarintLen64 :: nat where
  "MaxVarintLen64 = 10"

fun Uvarint_loop :: "u64 \<Rightarrow> nat \<Rightarrow> nat \<Rightarrow> bytes \<Rightarrow> u64 \<times> int" where
  "Uvarint_loop x s i [] = (0, 0)"
| "Uvarint_loop x s i (b # bs) =
     (if i = MaxVarintLen64 then (0, - (int i + 1))
      else if b < 0x80 then
        (if i = MaxVarintLen64 - 1 \<and> b > 1 then (0, - (int i + 1))
         else (x OR push_bit s (ucast b), int i + 1))
      else Uvarint_loop (x OR push_bit s (ucast (b AND 0x7f))) (s + 7) (i + 1) bs)"

definition Uvarint :: "bytes \<Rightarrow> u64 \<times> int" where
  "Uvarint buf = Uvarint_loop 0 0 0 buf"

subsection \<open>Pages\<close>

text \<open>
  Modelled from the spec: the page codec (\<open>newPageDelta\<close>, \<open>init\<close>, \<open>cursor\<close>, \<open>append\<close>,
  \<open>data\<close>), whose source is not among the files. The spec: a page is a buffer of fixed
  size; its first 8 bytes hold the first ID and the rest the unsigned varints of the
  deltas between successive IDs; \<open>init(first_id)\<close> starts an empty buffer with one ID;
  \<open>append(id)\<close> is \<open>OutOfOrder\<close> when the new ID is not strictly greater than the last and
  \<open>PageFull\<close> when the varint of the next delta does not fit in the remaining bytes.
  The model of a page is the list of the IDs it encodes; \<open>page_size\<close> counts the bytes
  of the encoding. The size of the buffer is the parameter \<open>cap\<close> of the functions below:
  the constants \<open>pageSize\<close> and \<open>pagebuf.PageHeaderSize\<close> are not among the files either,
  and \<open>createPage\<close> takes a buffer of \<open>pageSize - pagebuf.PageHeaderSize\<close> bytes.
\<close>

type_synonym page = "u64 list"

fun page_size :: "page \<Rightarrow> nat" where
  "page_size [] = 0"
| "page_size [x] = 8"
| "page_size (x # y # ys) = length (putUvarint (y - x)) + page_size (y # ys)"

definition pageCursor_append :: "nat \<Rightarrow> page \<Rightarrow> u64 \<Rightarrow> error + page" where
  "pageCursor_append cap pg x =
     (if pg \<noteq> [] \<and> x \<le> last pg then Inl ErrOutOfOrder
      else if page_size pg + length (putUvarint (x - last pg)) > cap then Inl ErrPageFull
      else Inr (pg @ [x]))"

text \<open>
  \<^verbatim>\<open>
  createPage := func(id uint64) (page, error) {
      pg := newPageDelta(make([]byte, pageSize-pagebuf.PageHeaderSize))
      if err := pg.init(id); err != nil { return nil, err }
      return pg, nil
  }
  \<close>
  \<open>init\<close> on a fresh buffer does not fail.
\<close>

definition createPage :: "u64 \<Rightarrow> error + page" where
  "createPage x = Inr [x]"

subsection \<open>The blob store\<close>

text \<open>
  The paged blob store (\<open>pagebuf\<close>) is a library outside the repository; the model
  takes the contract the spec states: \<open>Add(bytes)\<close> stores a page and returns a new
  page ID, \<open>Get(page_id)\<close> returns the page, \<open>Set(page_id, bytes)\<close> overwrites it. Page
  IDs are never 0: \<open>postingsAppend\<close> uses \<open>pid == 0\<close> for "the page was new", and the
  model's counter starts at 1 in an empty store. \<open>Get\<close> of an absent page returns
  \<open>nil\<close>, \<open>Set\<close> of one fails.
\<close>

record pagebuf =
  pb_pages :: "(u64 \<times> page) list"
  pb_next :: u64

definition pbtx_Add :: "pagebuf \<Rightarrow> page \<Rightarrow> u64 \<times> pagebuf" where
  "pbtx_Add pb data =
     (pb_next pb, pb\<lparr>pb_pages := pb_pages pb @ [(pb_next pb, data)], pb_next := pb_next pb + 1\<rparr>)"

definition pbtx_Get :: "pagebuf \<Rightarrow> u64 \<Rightarrow> page option" where
  "pbtx_Get pb pid = map_of (pb_pages pb) pid"

definition pbtx_Set :: "pagebuf \<Rightarrow> u64 \<Rightarrow> page \<Rightarrow> error option \<times> pagebuf" where
  "pbtx_Set pb pid data =
     (if map_of (pb_pages pb) pid = None then (Some ErrIO, pb)
      else (None, pb\<lparr>pb_pages := map (\<lambda>e. if fst e = pid then (pid, data) else e) (pb_pages pb)\<rparr>))"

subsection \<open>\<open>postingsAppend\<close>\<close>

text \<open>
  The bucket \<open>skiplist\<close> of the key/value store holds one sub-bucket per postings key,
  under \<open>encodeUint64(key)\<close>; \<open>CreateBucketIfNotExists\<close> returns the sub-bucket, empty
  when it is new.
\<close>

type_synonym skiplists = "(bytes \<times> kv) list"

definition CreateBucketIfNotExists :: "skiplists \<Rightarrow> bytes \<Rightarrow> kv" where
  "CreateBucketIfNotExists sl name = (case map_of sl name of Some b \<Rightarrow> b | None \<Rightarrow> [])"

definition set_bucket :: "skiplists \<Rightarrow> bytes \<Rightarrow> kv \<Rightarrow> skiplists" where
  "set_bucket sl name b =
     (if map_of sl name = None then sl @ [(name, b)]
      else map (\<lambda>e. if fst e = name then (name, b) else e) sl)"

text \<open>
  The variables of \<open>postingsAppend\<close> that its loop changes: the page \<open>pg\<close> being
  appended to (with its cursor \<open>pc\<close>), its ID \<open>pid\<close>, \<open>lastID\<close>, the skiplist cursor
  \<open>sl\<close> with its bucket, and the blob transaction \<open>pbtx\<close>.
\<close>

record pa_state =
  pa_pg :: page
  pa_pid :: u64
  pa_lastID :: u64
  pa_sl :: boltSkiplistCursor
  pa_pbtx :: pagebuf

text \<open>
  Storing the page away, as the loop does on \<open>errPageFull\<close> with \<open>d = ids[i]\<close> and the
  end of the function does with \<open>d = lastID\<close>:
  \<^verbatim>\<open>
  if pid == 0 {
      // The page was new.
      pid, err = pbtx.Add(pg.data())
      if err != nil { return err }
      if err := sl.append(d, pid); err != nil { return err }
  } else {
      if err = pbtx.Set(pid, pg.data()); err != nil { return err }
  }
  \<close>
\<close>

definition store_page :: "pa_state \<Rightarrow> u64 \<Rightarrow> error + pa_state" where
  "store_page st d =
     (if pa_pid st = 0 then
        (case pbtx_Add (pa_pbtx st) (pa_pg st) of
           (pid, pb') \<Rightarrow>
             (case boltSkiplistCursor_append (pa_sl st) d pid of
                (Some e, sl') \<Rightarrow> Inl e
              | (None, sl') \<Rightarrow> Inr (st\<lparr>pa_pid := pid, pa_pbtx := pb', pa_sl := sl'\<rparr>)))
      else
        (case pbtx_Set (pa_pbtx st) (pa_pid st) (pa_pg st) of
           (Some e, pb') \<Rightarrow> Inl e
         | (None, pb') \<Rightarrow> Inr (st\<lparr>pa_pbtx := pb'\<rparr>)))"

text \<open>
  \<^verbatim>\<open>
  var lastID uint64
  for i := 0; i < len(ids); i++ {
      lastID = ids[i]
      if err = pc.append(ids[i]); err == errPageFull {
          // We couldn't append to the page because it was full.
          // Store away the old page...
          if pid == 0 { ... sl.append(ids[i], pid) ... } else { ... pbtx.Set(pid, pg.data()) ... }
          // ... and allocate a new page.
          pid = 0
          if pg, err = createPage(ids[i]); err != nil { return err }
          pc = pg.cursor()
      } else if err != nil {
          return err
      }
  }
  \<close>
\<close>

fun postingsAppend_loop :: "nat \<Rightarrow> pa_state \<Rightarrow> u64 list \<Rightarrow> error + pa_state" where
  "postingsAppend_loop cap st [] = Inr st"
| "postingsAppend_loop cap st (x # ids) =
     (case pageCursor_append cap (pa_pg st) x of
        Inr pg' \<Rightarrow> postingsAppend_loop cap (st\<lparr>pa_lastID := x, pa_pg := pg'\<rparr>) ids
      | Inl e \<Rightarrow>
          if e = ErrPageFull then
            (case store_page (st\<lparr>pa_lastID := x\<rparr>) x of
               Inl e' \<Rightarrow> Inl e'
             | Inr st' \<Rightarrow>
                 (case createPage x of
                    Inl e' \<Rightarrow> Inl e'
                  | Inr pg' \<Rightarrow> postingsAppend_loop cap (st'\<lparr>pa_pid := 0, pa_pg := pg'\<rparr>) ids))
          else Inl e)"

text \<open>
  \<open>postingsAppend(bufs, skiplist, pbtx, key, ids...)\<close>. It returns the error, or the
  bucket \<open>skiplist\<close> and the blob transaction as it leaves them. With no ID it returns
  \<open>nil\<close> at once. The most recent page is found with \<open>sl.seek(math.MaxUint64)\<close>; on
  \<open>io.EOF\<close> the list is new, a page is created from \<open>ids[0]\<close>, \<open>ids = ids[1:]\<close>, and \<open>pid\<close>
  is the 0 that \<open>seek\<close> returned beside the error; otherwise the page \<open>pid\<close> is loaded
  (\<open>pbtx.Get\<close>; an error built with \<open>fmt.Errorf\<close> if it is \<open>nil\<close>) and copied. After the
  loop the last page is stored away with \<open>lastID\<close>.
\<close>

definition postingsAppend ::
    "nat \<Rightarrow> skiplists \<Rightarrow> pagebuf \<Rightarrow> u64 \<Rightarrow> u64 list \<Rightarrow> error + skiplists \<times> pagebuf" where
  "postingsAppend cap skiplist pbtx key ids =
     (if length ids = 0 then Inr (skiplist, pbtx)
      else
        (let b = CreateBucketIfNotExists skiplist (encodeUint64 key);
             sl = \<lparr>sc_k = key, sc_c = None, sc_bkt = b\<rparr>
         in
         (case boltSkiplistCursor_seek sl 0xFFFFFFFFFFFFFFFF of
            ((d, pid, err), sl') \<Rightarrow>
              (case
                 (if err \<noteq> None then
                    (if err \<noteq> Some EOF then Inl (the err)
                     else
                       (case createPage (hd ids) of
                          Inl e \<Rightarrow> Inl e
                        | Inr pg \<Rightarrow>
                            Inr (\<lparr>pa_pg = pg, pa_pid = pid, pa_lastID = 0, pa_sl = sl',
                                  pa_pbtx = pbtx\<rparr>, tl ids)))
                  else
                    (case pbtx_Get pbtx pid of
                       None \<Rightarrow> Inl ErrFmt
                     | Some pdata \<Rightarrow>
                         Inr (\<lparr>pa_pg = pdata, pa_pid = pid, pa_lastID = 0, pa_sl = sl',
                               pa_pbtx = pbtx\<rparr>, ids)))
               of
                 Inl e \<Rightarrow> Inl e
               | Inr (st, ids') \<Rightarrow>
                   (case postingsAppend_loop cap st ids' of
                      Inl e \<Rightarrow> Inl e
                    | Inr st' \<Rightarrow>
                        (case store_page st' (pa_lastID st') of
                           Inl e \<Rightarrow> Inl e
                         | Inr st'' \<Rightarrow>
                             Inr (set_bucket skiplist (encodeUint64 key) (sc_bkt (pa_sl st'')),
                                  pa_pbtx st'')))))))"

subsection \<open>\<open>postingsStore\<close>: \<open>Append\<close> and \<open>Close\<close>\<close>

text \<open>
  \<open>postingsStore{db, pb, pgpool}\<close>. The model keeps of \<open>db\<close> the committed bucket
  \<open>skiplist\<close> (\<open>None\<close> when the bucket is missing) and of \<open>pb\<close> the committed pages, and
  for each of the two handles whether it is open.
\<close>

record postingsStore =
  ps_skiplist :: "skiplists option"
  ps_pb :: pagebuf
  ps_db_open :: bool
  ps_pb_open :: bool

text \<open>
  What the two stores answer when a transaction is begun or committed is not decided
  by the code: \<open>io_env\<close> gives the error, if any, of \<open>p.pb.Begin(true)\<close>, of the \<open>Begin\<close>
  and of the \<open>Commit\<close> inside \<open>p.db.Update\<close>, and of \<open>pbtx.Commit()\<close>.
\<close>

record io_env =
  env_pb_begin :: "error option"
  env_db_begin :: "error option"
  env_db_commit :: "error option"
  env_pb_commit :: "error option"

text \<open>The transaction events of a call, in the order in which they happen.\<close>

datatype event = PbBegin | DbBegin | DbCommit | DbRollback | PbCommit | PbCommitFailed | PbRollback

text \<open>
  The batches are a Go map; the model takes them as the list of its entries in the
  order in which \<open>range\<close> delivers them.
  \<^verbatim>\<open>
  for k, ids := range batches {
      if err := p.postingsAppend(bufs, sl, pbtx, k, ids...); err != nil { return err }
  }
  return nil
  \<close>
\<close>

fun apply_batches ::
    "nat \<Rightarrow> skiplists \<Rightarrow> pagebuf \<Rightarrow> (u64 \<times> u64 list) list \<Rightarrow> error + skiplists \<times> pagebuf" where
  "apply_batches cap sl pbtx [] = Inr (sl, pbtx)"
| "apply_batches cap sl pbtx ((k, ids) # batches) =
     (case postingsAppend cap sl pbtx k ids of
        Inl e \<Rightarrow> Inl e
      | Inr (sl', pbtx') \<Rightarrow> apply_batches cap sl' pbtx' batches)"

text \<open>
  \<^verbatim>\<open>
  func (p *postingsStore) Append(batches PostingsBatches) error {
      ...
      pbtx, err := p.pb.Begin(true)
      if err != nil { return err }
      err = p.db.Update(func(tx *bolt.Tx) error {
          sl := tx.Bucket(bucketSkiplist)
          if sl == nil { return fmt.Errorf("Bucket %q missing", bucketSkiplist) }
          for k, ids := range batches { ... }
          return nil
      })
      if err != nil {
          pbtx.Rollback()
          return err
      }
      err = pbtx.Commit()
      return err
  }
  \<close>
  \<open>db.Update\<close> is Bolt's managed transaction: it begins a writable transaction, runs
  the function, rolls the transaction back if the function returns an error, and
  commits it otherwise; a commit that fails leaves the store as it was. The model of a
  blob commit that fails leaves the committed pages as they were.
\<close>

definition Append ::
    "io_env \<Rightarrow> nat \<Rightarrow> (u64 \<times> u64 list) list \<Rightarrow> postingsStore \<Rightarrow>
       error option \<times> postingsStore \<times> event list" where
  "Append env cap batches p =
     (case env_pb_begin env of
        Some e \<Rightarrow> (Some e, p, [])
      | None \<Rightarrow>
          (case env_db_begin env of
             Some e \<Rightarrow> (Some e, p, [PbBegin, PbRollback])
           | None \<Rightarrow>
               (case (case ps_skiplist p of
                        None \<Rightarrow> Inl ErrFmt
                      | Some sl \<Rightarrow> apply_batches cap sl (ps_pb p) batches) of
                  Inl e \<Rightarrow> (Some e, p, [PbBegin, DbBegin, DbRollback, PbRollback])
                | Inr (sl', pbtx') \<Rightarrow>
                    (case env_db_commit env of
                       Some e \<Rightarrow> (Some e, p, [PbBegin, DbBegin, DbRollback, PbRollback])
                     | None \<Rightarrow>
                         (case env_pb_commit env of
                            Some e \<Rightarrow>
                              (Some e, p\<lparr>ps_skiplist := Some sl'\<rparr>,
                               [PbBegin, DbBegin, DbCommit, PbCommitFailed])
                          | None \<Rightarrow>
                              (None, p\<lparr>ps_skiplist := Some sl', ps_pb := pbtx'\<rparr>,
                               [PbBegin, DbBegin, DbCommit, PbCommit]))))))"

text \<open>
  \<^verbatim>\<open>
  // Close implements the Postings interface.
  func (p *postingsStore) Close() error {
      return p.db.Close()
  }
  \<close>
\<close>

definition postingsStore_Close :: "postingsStore \<Rightarrow> error option \<times> postingsStore" where
  "postingsStore_Close p = (None, p\<lparr>ps_db_open := False\<rparr>)"

text \<open>\<open>NewPostings\<close> on an empty directory: both stores open, the bucket \<open>skiplist\<close> created.\<close>

definition NewPostings :: postingsStore where
  "NewPostings =
     \<lparr>ps_skiplist = Some [], ps_pb = \<lparr>pb_pages = [], pb_next = 1\<rparr>,
      ps_db_open = True, ps_pb_open = True\<rparr>"

definition io_ok :: io_env where
  "io_ok = \<lparr>env_pb_begin = None, env_db_begin = None, env_db_commit = None, env_pb_commit = None\<rparr>"

section \<open>The series dictionary\<close>

subsection \<open>The transaction and its buckets\<close>

text \<open>
  \<open>boltSeriesTx\<close> holds the Bolt transaction and the four buckets that
  \<open>newBoltSeriesStore\<close> creates: \<open>seriesToID\<close>, \<open>IDToSeries\<close>, \<open>labelToID\<close> and
  \<open>IDToLabel\<close>. A bucket is its key/value pairs and its sequence counter. Of the
  transaction the model keeps whether it is writable (the argument of \<open>Begin\<close>): in a
  read-only transaction Bolt's \<open>Put\<close> and \<open>NextSequence\<close> fail with
  \<open>ErrTxNotWritable\<close>; in a writable one \<open>NextSequence\<close> increments the counter and
  returns it.
\<close>

record bolt_Bucket =
  bk_kv :: kv
  bk_sequence :: u64

record boltSeriesTx =
  tx_writable :: bool
  seriesToID :: bolt_Bucket
  IDToSeries :: bolt_Bucket
  labelToID :: bolt_Bucket
  IDToLabel :: bolt_Bucket

definition Bucket_Get :: "bolt_Bucket \<Rightarrow> bytes \<Rightarrow> bytes option" where
  "Bucket_Get b k = bucket_Get (bk_kv b) k"

definition Bucket_Put :: "bool \<Rightarrow> bolt_Bucket \<Rightarrow> bytes \<Rightarrow> bytes \<Rightarrow> error option \<times> bolt_Bucket" where
  "Bucket_Put writable b k v =
     (if \<not> writable then (Some ErrTxNotWritable, b)
      else (case bucket_Put (bk_kv b) k v of (e, kv') \<Rightarrow> (e, b\<lparr>bk_kv := kv'\<rparr>)))"

definition Bucket_NextSequence :: "bool \<Rightarrow> bolt_Bucket \<Rightarrow> (u64 \<times> error option) \<times> bolt_Bucket" where
  "Bucket_NextSequence writable b =
     (if \<not> writable then ((0, Some ErrTxNotWritable), b)
      else ((bk_sequence b + 1, None), b\<lparr>bk_sequence := bk_sequence b + 1\<rparr>))"

text \<open>
  The transaction that \<open>Begin(writeable)\<close> returns on the store that
  \<open>newBoltSeriesStore\<close> has just created: the four buckets exist and are empty.
\<close>

definition newBoltSeriesStore_Begin :: "bool \<Rightarrow> boltSeriesTx" where
  "newBoltSeriesStore_Begin writeable =
     \<lparr>tx_writable = writeable,
      seriesToID = \<lparr>bk_kv = [], bk_sequence = 0\<rparr>,
      IDToSeries = \<lparr>bk_kv = [], bk_sequence = 0\<rparr>,
      labelToID = \<lparr>bk_kv = [], bk_sequence = 0\<rparr>,
      IDToLabel = \<lparr>bk_kv = [], bk_sequence = 0\<rparr>\<rparr>"

subsection \<open>Helpers that are not among the files\<close>

text \<open>
  Modelled from the spec: the constant \<open>seperator\<close>, the type \<open>seriesKey\<close> with its
  order and its method \<open>bytes\<close>, and \<open>readUvarint\<close>, whose source is not among the files.
  The spec: \<open>SEP\<close> is "a byte chosen outside the legal label alphabet", of which it
  says that "the source uses \<open>0x00\<close> or similar"; a series key is "an ordered sequence of \<open>label_id\<close>s, sorted
  ascending", and \<open>canonical_series_key_bytes\<close> is the "concatenation of the big-endian
  8-byte \<open>label_id\<close>s sorted ascending"; a varint is a "LEB128-style unsigned varint".
  \<open>readUvarint\<close> takes one varint from the front of the reader: its value, the number
  of bytes it took and the rest of the reader, or an error when the bytes do not
  begin with a complete varint.
\<close>

definition seperator :: byte where
  "seperator = 0x00"

type_synonym seriesKey = "u64 list"

definition seriesKey_bytes :: "seriesKey \<Rightarrow> bytes" where
  "seriesKey_bytes skey = concat (map encodeUint64 skey)"

definition readUvarint :: "bytes \<Rightarrow> (u64 \<times> nat \<times> error option) \<times> bytes" where
  "readUvarint r =
     (case Uvarint r of
        (x, n) \<Rightarrow>
          if n > 0 then ((x, nat n, None), drop (nat n) r)
          else ((0, 0, Some ErrFmt), r))"

subsection \<open>Library functions on byte slices\<close>

text \<open>
  \<open>copy(dst, src)\<close> overwrites the first \<open>min(len(dst), len(src))\<close> bytes of \<open>dst\<close>.
  \<open>bytes.Split(s, sep)\<close> is only called with a separator of one byte: the pieces of
  \<open>s\<close> between the occurrences of that byte, one piece more than there are
  occurrences.
\<close>

definition go_copy :: "bytes \<Rightarrow> bytes \<Rightarrow> bytes" where
  "go_copy dst src =
     take (min (length dst) (length src)) src @ drop (min (length dst) (length src)) dst"

fun bytes_Split :: "bytes \<Rightarrow> byte \<Rightarrow> bytes list" where
  "bytes_Split [] c = [[]]"
| "bytes_Split (x # xs) c =
     (if x = c then [] # bytes_Split xs c
      else (case bytes_Split xs c of [] \<Rightarrow> [[x]] | p # ps \<Rightarrow> (x # p) # ps))"

subsection \<open>Labels\<close>

text \<open>
  \<^verbatim>\<open>
  func (s *boltSeriesTx) ensureLabel(key, val string) (uint64, error) {
      k := make([]byte, len(key)+len(val)+1)

      copy(k[:len(key)], []byte(val))
      k[len(key)] = seperator
      copy(k[len(key)+1:], []byte(val))

      var err error
      var id uint64
      if v := s.labelToID.Get(k); v != nil {
          id, _ = binary.Uvarint(v)
      } else {
          id, err = s.IDToLabel.NextSequence()
          if err != nil { return 0, err }
          buf := make([]byte, binary.MaxVarintLen64)
          n := binary.PutUvarint(buf, id)
          if err := s.labelToID.Put(k, buf[:n]); err != nil { return 0, err }
          if err := s.IDToLabel.Put(buf[:n], k); err != nil { return 0, err }
      }
      return id, nil
  }
  \<close>
  \<open>ensureLabel_k\<close> is the slice \<open>k\<close> when the three statements that fill it are done.
\<close>

definition ensureLabel_k :: "bytes \<Rightarrow> bytes \<Rightarrow> bytes" where
  "ensureLabel_k key val =
     (let k0 = replicate (length key + length val + 1) 0;
          k1 = go_copy (take (length key) k0) val @ drop (length key) k0;
          k2 = k1[length key := seperator]
      in take (length key + 1) k2 @ go_copy (drop (length key + 1) k2) val)"

definition ensureLabel :: "boltSeriesTx \<Rightarrow> bytes \<Rightarrow> bytes \<Rightarrow> (u64 \<times> error option) \<times> boltSeriesTx" where
  "ensureLabel s key val =
     (let k = ensureLabel_k key val in
      case Bucket_Get (labelToID s) k of
        Some v \<Rightarrow> ((fst (Uvarint v), None), s)
      | None \<Rightarrow>
          (case Bucket_NextSequence (tx_writable s) (IDToLabel s) of
             ((tid, Some err), b) \<Rightarrow> ((0, Some err), s\<lparr>IDToLabel := b\<rparr>)
           | ((tid, None), b) \<Rightarrow>
               (let s1 = s\<lparr>IDToLabel := b\<rparr> in
                case Bucket_Put (tx_writable s1) (labelToID s1) k (putUvarint tid) of
                  (Some err, b1) \<Rightarrow> ((0, Some err), s1\<lparr>labelToID := b1\<rparr>)
                | (None, b1) \<Rightarrow>
                    (let s2 = s1\<lparr>labelToID := b1\<rparr> in
                     case Bucket_Put (tx_writable s2) (IDToLabel s2) (putUvarint tid) k of
                       (Some err, b2) \<Rightarrow> ((0, Some err), s2\<lparr>IDToLabel := b2\<rparr>)
                     | (None, b2) \<Rightarrow> ((tid, None), s2\<lparr>IDToLabel := b2\<rparr>)))))"

text \<open>
  \<^verbatim>\<open>
  func (s *boltSeriesTx) label(id uint64) (string, string, error) {
      buf := make([]byte, binary.MaxVarintLen64)
      n := binary.PutUvarint(buf, id)
      label := s.IDToLabel.Get(buf[:n])
      if label == nil {
          return "", "", fmt.Errorf("label for ID %q not found", buf[:n])
      }
      p := bytes.Split(label, []byte{seperator})

      return string(p[0]), string(p[1]), nil
  }
  \<close>
  \<open>p[1]\<close> panics when the stored bytes hold no separator.
\<close>

definition label :: "boltSeriesTx \<Rightarrow> u64 \<Rightarrow> panic + (bytes \<times> bytes \<times> error option)" where
  "label s tid =
     (case Bucket_Get (IDToLabel s) (putUvarint tid) of
        None \<Rightarrow> Inr ([], [], Some ErrFmt)
      | Some l \<Rightarrow>
          (let p = bytes_Split l seperator in
           if length p < 2 then Inl IndexOutOfRange
           else Inr (p ! 0, p ! 1, None)))"

subsection \<open>Series\<close>

text \<open>
  \<^verbatim>\<open>
  func (s *boltSeriesTx) ensureSeries(desc map[string]string) (uint64, seriesKey, error) {
      var skey seriesKey
      for k, v := range desc {
          key, err := s.ensureLabel(k, v)
          if err != nil { return 0, nil, err }
          skey = append(skey, key)
      }
      sort.Sort(skey)

      var sid uint64
      if sidb := s.IDToSeries.Get(skey.bytes()); sidb != nil {
          sid, _ := binary.Uvarint(sidb)
          return sid, skey, nil
      }

      sid, err := s.IDToSeries.NextSequence()
      if err != nil { return 0, nil, err }
      buf := make([]byte, binary.MaxVarintLen64)
      n := binary.PutUvarint(buf, sid)

      if err := s.IDToSeries.Put(buf[:n], skey.bytes()); err != nil { return 0, nil, err }

      return sid, skey, nil
  }
  \<close>
  The map \<open>desc\<close> is the list of its entries in the order in which \<open>range\<close> visits
  them, an order that Go leaves open. \<open>ensureLabels\<close> is the \<open>for\<close> loop.
\<close>

fun ensureLabels ::
    "boltSeriesTx \<Rightarrow> seriesKey \<Rightarrow> (bytes \<times> bytes) list \<Rightarrow> (error + seriesKey) \<times> boltSeriesTx" where
  "ensureLabels s skey [] = (Inr skey, s)"
| "ensureLabels s skey ((k, v) # desc) =
     (case ensureLabel s k v of
        ((key, Some err), s') \<Rightarrow> (Inl err, s')
      | ((key, None), s') \<Rightarrow> ensureLabels s' (skey @ [key]) desc)"

definition ensureSeries ::
    "boltSeriesTx \<Rightarrow> (bytes \<times> bytes) list \<Rightarrow> (u64 \<times> seriesKey \<times> error option) \<times> boltSeriesTx" where
  "ensureSeries s desc =
     (case ensureLabels s [] desc of
        (Inl err, s1) \<Rightarrow> ((0, [], Some err), s1)
      | (Inr skey0, s1) \<Rightarrow>
          (let skey = sort skey0 in
           case Bucket_Get (IDToSeries s1) (seriesKey_bytes skey) of
             Some sidb \<Rightarrow> ((fst (Uvarint sidb), skey, None), s1)
           | None \<Rightarrow>
               (case Bucket_NextSequence (tx_writable s1) (IDToSeries s1) of
                  ((sid, Some err), b) \<Rightarrow> ((0, [], Some err), s1\<lparr>IDToSeries := b\<rparr>)
                | ((sid, None), b) \<Rightarrow>
                    (let s2 = s1\<lparr>IDToSeries := b\<rparr> in
                     case Bucket_Put (tx_writable s2) (IDToSeries s2) (putUvarint sid)
                            (seriesKey_bytes skey) of
                       (Some err, b2) \<Rightarrow> ((0, [], Some err), s2\<lparr>IDToSeries := b2\<rparr>)
                     | (None, b2) \<Rightarrow> ((sid, skey, None), s2\<lparr>IDToSeries := b2\<rparr>)))))"

text \<open>
  \<^verbatim>\<open>
  func (s *boltSeriesTx) series(sid uint64) (map[string]string, error) {
      buf := make([]byte, binary.MaxVarintLen64)
      n := binary.PutUvarint(buf, sid)

      series := s.IDToSeries.Get(buf[:n])
      if series == nil { return nil, errNotFound }
      var ids []uint64
      r := bytes.NewReader(series)
      for r.Len() > 0 {
          id, _, err := readUvarint(r)
          if err != nil { return nil, err }
          ids = append(ids, id)
      }

      m := map[string]string{}

      for _, id := range ids {
          k, v, err := s.label(id)
          if err != nil { return nil, err }
          m[k] = v
      }
      return m, nil
  }
  \<close>
  \<open>series_ids\<close> is the first loop: every read that reports no error takes at least
  one byte, so the loop ends. \<open>series_labels\<close> is the second loop; the map that is
  returned is a list of entries with one entry for a key.
\<close>

function series_ids :: "u64 list \<Rightarrow> bytes \<Rightarrow> error + u64 list" where
  "series_ids ids r =
     (if length r > 0 then
        (case readUvarint r of
           ((tid, n, Some err), r') \<Rightarrow> Inl err
         | ((tid, n, None), r') \<Rightarrow> series_ids (ids @ [tid]) r')
      else Inr ids)"
  by pat_completeness auto
termination
proof (relation "measure (\<lambda>(ids, r). length r)")
  show "wf (measure (\<lambda>(ids, r). length r))" by simp
next
  fix ids :: "u64 list" and r r' :: bytes and x :: "u64 \<times> nat \<times> error option"
    and tid :: u64 and y :: "nat \<times> error option" and n :: nat and e :: "error option"
  assume "0 < length r" and "(x, r') = readUvarint r" and "(tid, y) = x" and "(n, e) = y"
    and "e = None"
  then have "r' = drop (nat (snd (Uvarint r))) r" and "0 < snd (Uvarint r)"
    by (auto simp: readUvarint_def split: prod.splits if_splits)
  with \<open>0 < length r\<close> show "((ids @ [tid], r'), (ids, r)) \<in> measure (\<lambda>(ids, r). length r)"
    by simp
qed

declare series_ids.simps [simp del]

fun map_store :: "(bytes \<times> bytes) list \<Rightarrow> bytes \<Rightarrow> bytes \<Rightarrow> (bytes \<times> bytes) list" where
  "map_store [] k v = [(k, v)]"
| "map_store ((k', v') # m) k v =
     (if k' = k then (k, v) # m else (k', v') # map_store m k v)"

fun series_labels ::
    "boltSeriesTx \<Rightarrow> (bytes \<times> bytes) list \<Rightarrow> u64 list \<Rightarrow> panic + (error + (bytes \<times> bytes) list)" where
  "series_labels s m [] = Inr (Inr m)"
| "series_labels s m (tid # ids) =
     (case label s tid of
        Inl p \<Rightarrow> Inl p
      | Inr (k, v, Some err) \<Rightarrow> Inr (Inl err)
      | Inr (k, v, None) \<Rightarrow> series_labels s (map_store m k v) ids)"

definition series :: "boltSeriesTx \<Rightarrow> u64 \<Rightarrow> panic + (error + (bytes \<times> bytes) list)" where
  "series s sid =
     (case Bucket_Get (IDToSeries s) (putUvarint sid) of
        None \<Rightarrow> Inr (Inl ErrNotFound)
      | Some sr \<Rightarrow>
          (case series_ids [] sr of
             Inl err \<Rightarrow> Inr (Inl err)
           | Inr ids \<Rightarrow> series_labels s [] ids))"

section \<open>Notions of the proofs about the iterators\<close>

text \<open>
  What follows is not code of the package: these notions state the proofs. An
  iterator produces a sequence of IDs through its calls: \<open>delivers r it xs\<close> says that
  \<open>r\<close> is the result of the call just made, \<open>it\<close> the iterator as that call left it,
  and that \<open>r\<close> and the results of the calls of \<open>Next\<close> that follow are the IDs \<open>xs\<close>,
  each returned without error, and then \<open>io.EOF\<close>.
\<close>

fun delivers :: "result \<Rightarrow> iterator \<Rightarrow> u64 list \<Rightarrow> bool" where
  "delivers r it [] = (snd r = Some EOF)"
| "delivers r it (x # xs) =
     (r = (x, None) \<and>
      (\<exists>r' it'. iter_run ReqNext it = Some (Inr (r', it')) \<and> delivers r' it' xs))"

text \<open>
  \<open>buffered l p v e b\<close> relates a list iterator \<open>PlainList l p\<close> and the result
  \<open>(v, e)\<close> of its last call, as a combinator holds it in \<open>v1, e1\<close>, to the part \<open>b\<close> of
  \<open>l\<close> that is still to be delivered: \<open>v\<close> and what lies behind \<open>pos\<close>, or nothing after
  \<open>io.EOF\<close>.
\<close>

definition buffered :: "u64 list \<Rightarrow> nat \<Rightarrow> u64 \<Rightarrow> error option \<Rightarrow> u64 list \<Rightarrow> bool" where
  "buffered l p v e b \<longleftrightarrow>
     (e = None \<and> 1 \<le> p \<and> p \<le> length l \<and> b = drop (p - 1) l \<and> v = l ! (p - 1)) \<or>
     (e = Some EOF \<and> b = [])"

text \<open>The union of two ascending lists, an ID of both lists once.\<close>

fun umerge :: "u64 list \<Rightarrow> u64 list \<Rightarrow> u64 list" where
  "umerge [] ys = ys"
| "umerge xs [] = xs"
| "umerge (x # xs) (y # ys) =
     (if x < y then x # umerge xs (y # ys)
      else if y < x then y # umerge (x # xs) ys
      else x # umerge xs ys)"

text \<open>
  For the proofs about the byte encodings: \<open>be_val\<close> is the number a byte string
  denotes in big-endian, \<open>be_enc k n\<close> the \<open>k\<close> low bytes of \<open>n\<close>, most significant first.
\<close>

fun be_val :: "bytes \<Rightarrow> nat" where
  "be_val [] = 0"
| "be_val (x # xs) = unat x * 256 ^ length xs + be_val xs"

fun be_enc :: "nat \<Rightarrow> nat \<Rightarrow> bytes" where
  "be_enc 0 n = []"
| "be_enc (Suc k) n = word_of_nat (n div 256 ^ k) # be_enc k n"

section \<open>The invariant of the skiplist, from the spec\<close>

text \<open>
  The invariant that the spec states for the skiplist entries, as a check of a store:
  in every bucket the entries are ordered by \<open>last_id_in_page\<close>, and the key of each
  entry is the maximum ID of the page that the entry refers to.
\<close>

definition skiplist_entry_ok :: "pagebuf \<Rightarrow> bytes \<times> bytes \<Rightarrow> bool" where
  "skiplist_entry_ok pb e =
     (case pbtx_Get pb (decodeUint64 (snd e)) of
        None \<Rightarrow> False
      | Some pg \<Rightarrow> pg \<noteq> [] \<and> decodeUint64 (fst e) = Max (set pg))"

definition skiplist_invariant :: "postingsStore \<Rightarrow> bool" where
  "skiplist_invariant p =
     (case ps_skiplist p of
        None \<Rightarrow> True
      | Some sl \<Rightarrow>
          list_all
            (\<lambda>nb. sorted_wrt (<) (map (\<lambda>e. decodeUint64 (fst e)) (snd nb)) \<and>
                  list_all (skiplist_entry_ok (ps_pb p)) (snd nb))
            sl)"

section \<open>Binary search\<close>

lemma search_loop_spec:
  "(\<And>a b. a \<le> b \<Longrightarrow> b < n \<Longrightarrow> f a \<Longrightarrow> f b) \<Longrightarrow> i \<le> j \<Longrightarrow> j \<le> n \<Longrightarrow> (\<forall>k<i. \<not> f k) \<Longrightarrow> (\<forall>k. j \<le> k \<and> k < n \<longrightarrow> f k) \<Longrightarrow>
         search_loop f i j \<le> n \<and> (\<forall>k < search_loop f i j. \<not> f k) \<and>
         (\<forall>k. search_loop f i j \<le> k \<and> k < n \<longrightarrow> f k)"
proof (induction f i j rule: search_loop.induct)
  case (1 f i j)
  note unf = search_loop.simps[of f i j]
  note mono = "1.prems"(1)
  note ij = "1.prems"(2) and jn = "1.prems"(3) and lo0 = "1.prems"(4) and up0 = "1.prems"(5)
  show ?case
  proof (cases "i < j")
    case False
    then have "search_loop f i j = i" by (simp add: unf)
    with ij jn lo0 up0 False show ?thesis by auto
  next
    case True
    let ?h = "(i + j) div 2"
    have hb: "i \<le> ?h" "?h < j" using True by auto
    show ?thesis
    proof (cases "f ?h")
      case fh: True
      have eq: "search_loop f i j = search_loop f i ?h"
        using True fh by (subst unf) (simp add: Let_def)
      have up: "\<forall>k. ?h \<le> k \<and> k < n \<longrightarrow> f k"
      proof (intro allI impI)
        fix k assume a: "?h \<le> k \<and> k < n"
        show "f k" by (rule mono[of ?h k]) (use a fh in simp_all)
      qed
      have hn: "?h \<le> n" using hb(2) jn by linarith
      have nn: "\<not> \<not> f ?h" using fh by simp
      show ?thesis unfolding eq
        by (rule "1.IH"(2)[OF True refl nn mono hb(1) hn lo0 up])
    next
      case nfh: False
      have eq: "search_loop f i j = search_loop f (?h + 1) j"
        using True nfh by (subst unf) (simp add: Let_def)
      have lo: "\<forall>k<?h + 1. \<not> f k"
      proof (intro allI impI notI)
        fix k assume "k < ?h + 1" "f k"
        then have "f ?h" by (intro mono[of k ?h]) (use hb jn in simp_all)
        with nfh show False by simp
      qed
      have hj: "?h + 1 \<le> j" using hb by simp
      show ?thesis unfolding eq
        by (rule "1.IH"(1)[OF True refl nfh mono hj jn lo up0])
    qed
  qed
qed

lemma sort_Search_sorted:
  assumes "sorted l"
  shows "sort_Search (length l) (\<lambda>i. l ! i \<ge> t) = length (takeWhile (\<lambda>x. x < t) l)"
proof -
  let ?f = "\<lambda>i. l ! i \<ge> t"
  let ?r = "search_loop ?f 0 (length l)"
  have mono: "\<And>a b. a \<le> b \<Longrightarrow> b < length l \<Longrightarrow> ?f a \<Longrightarrow> ?f b"
  proof -
    fix a b assume ab: "a \<le> b" "b < length l" "t \<le> l ! a"
    have "l ! a \<le> l ! b" using assms ab by (simp add: sorted_nth_mono)
    with ab(3) show "t \<le> l ! b" by (rule order_trans)
  qed
  have spec: "?r \<le> length l \<and> (\<forall>k < ?r. \<not> ?f k) \<and> (\<forall>k. ?r \<le> k \<and> k < length l \<longrightarrow> ?f k)"
  proof (rule search_loop_spec[where n = "length l", OF mono])
    show "\<forall>k. length l \<le> k \<and> k < length l \<longrightarrow> ?f k"
    proof (intro allI impI)
      fix k assume "length l \<le> k \<and> k < length l"
      then have False by linarith
      then show "?f k" ..
    qed
  qed simp_all
  from spec have s1: "?r \<le> length l" by (elim conjE)
  from spec have s2: "\<forall>k < ?r. \<not> ?f k" by (elim conjE)
  from spec have s3: "\<forall>k. ?r \<le> k \<and> k < length l \<longrightarrow> ?f k" by (elim conjE)
  have "takeWhile (\<lambda>x. x < t) l = take ?r l"
  proof (rule takeWhile_eq_take_P_nth)
    fix i assume "i < ?r" "i < length l"
    then have "\<not> t \<le> l ! i" by (intro s2[rule_format])
    then show "l ! i < t" by (simp only: not_le)
  next
    assume a: "?r < length l"
    have "t \<le> l ! ?r" by (intro s3[rule_format] conjI order_refl a)
    then show "\<not> l ! ?r < t" by (simp only: not_less)
  qed
  then have "length (takeWhile (\<lambda>x. x < t) l) = ?r" using s1 by simp
  then show ?thesis by (simp only: sort_Search_def)
qed

lemma search_loop_cong:
  "(\<And>h. i \<le> h \<Longrightarrow> h < j \<Longrightarrow> f h = g h) \<Longrightarrow> search_loop f i j = search_loop g i j"
proof (induction f i j rule: search_loop.induct)
  case (1 f i j)
  show ?case
  proof (cases "i < j")
    case False
    then show ?thesis by (simp add: search_loop.simps[of _ i j])
  next
    case True
    let ?h = "(i + j) div 2"
    have hb: "i \<le> ?h" "?h < j" using True by auto
    have fg: "f ?h = g ?h" using "1.prems" hb by blast
    show ?thesis
    proof (cases "f ?h")
      case fh: True
      have "search_loop f i ?h = search_loop g i ?h"
        by (rule "1.IH"(2)[OF True refl]) (use fh "1.prems" hb in auto)
      then show ?thesis using True fh fg
        by (simp add: search_loop.simps[of _ i j] Let_def)
    next
      case nfh: False
      have "search_loop f (?h + 1) j = search_loop g (?h + 1) j"
        by (rule "1.IH"(1)[OF True refl nfh]) (use "1.prems" hb in auto)
      then show ?thesis using True nfh fg
        by (simp add: search_loop.simps[of _ i j] Let_def)
    qed
  qed
qed

section \<open>The sequence an iterator produces\<close>

text \<open>
  \<open>ExpandIterator\<close> returns the list \<open>xs\<close> without error exactly when \<open>Seek(0)\<close> and
  the calls of \<open>Next\<close> after it return the IDs \<open>xs\<close> and then \<open>io.EOF\<close>.
\<close>

lemma pbind_simps [simp]:
  "pbind (Some (Inr x)) f = f x"
  "pbind (Some (Inl p)) f = Some (Inl p)"
  "pbind None f = None"
  by simp_all

lemma pbind_eq_Some_Inr:
  "pbind m f = Some (Inr y) \<longleftrightarrow> (\<exists>x. m = Some (Inr x) \<and> f x = Some (Inr y))"
  by (cases m; simp split: sum.splits)

lemma expand_loop_err:
  "e \<noteq> None \<Longrightarrow> expand_loop res (v, e) S = Some (Inr (res, if e = Some EOF then None else e))"
  by (subst expand_loop.simps) auto

lemma expand_loop_ok:
  "expand_loop res (v, None) S =
     pbind (iter_run ReqNext S) (\<lambda>(r', it'). expand_loop (res @ [v]) r' it')"
  by (subst expand_loop.simps) simp

lemma delivers_expand_loop:
  "delivers r it xs \<Longrightarrow> expand_loop res r it = Some (Inr (res @ xs, None))"
proof (induction xs arbitrary: res r it)
  case Nil
  then obtain v where "r = (v, Some EOF)" by (cases r) auto
  then show ?case by (simp add: expand_loop_err)
next
  case (Cons x xs)
  from Cons.prems obtain r' it' where r: "r = (x, None)"
    and n: "iter_run ReqNext it = Some (Inr (r', it'))" and d: "delivers r' it' xs"
    by auto
  from Cons.IH[OF d, of "res @ [x]"] show ?case by (simp add: r expand_loop_ok n)
qed

lemma expand_loop_delivers_aux:
  assumes "expand_loop res r it = Some y"
  shows "\<forall>ys. y = Inr (ys, None) \<longrightarrow> (\<exists>xs. ys = res @ xs \<and> delivers r it xs)"
proof (rule expand_loop.raw_induct[where
      P = "\<lambda>res r it y. \<forall>ys. y = Inr (ys, None) \<longrightarrow> (\<exists>xs. ys = res @ xs \<and> delivers r it xs)",
      OF _ assms])
  fix f :: "u64 list \<Rightarrow> result \<Rightarrow> iterator \<Rightarrow> (panic + u64 list \<times> error option) option"
  fix res r it resa
  assume IH: "\<And>res r it y. f res r it = Some y \<Longrightarrow>
      \<forall>ys. y = Inr (ys, None) \<longrightarrow> (\<exists>xs. ys = res @ xs \<and> delivers r it xs)"
  assume body: "(if snd r = None
      then pbind (iter_run ReqNext it) (\<lambda>(r', it'). f (res @ [fst r]) r' it')
      else Some (Inr (res, if snd r = Some EOF then None else snd r))) = Some resa"
  show "\<forall>ys. resa = Inr (ys, None) \<longrightarrow> (\<exists>xs. ys = res @ xs \<and> delivers r it xs)"
  proof (intro allI impI)
    fix ys assume resa: "resa = Inr (ys, None)"
    show "\<exists>xs. ys = res @ xs \<and> delivers r it xs"
    proof (cases "snd r = None")
      case False
      with body resa have "ys = res" "snd r = Some EOF"
        by (auto split: if_splits)
      then show ?thesis by simp
    next
      case True
      with body resa
      have "pbind (iter_run ReqNext it) (\<lambda>(r', it'). f (res @ [fst r]) r' it') =
              Some (Inr (ys, None))" by simp
      then obtain r' it' where n: "iter_run ReqNext it = Some (Inr (r', it'))"
        and e: "f (res @ [fst r]) r' it' = Some (Inr (ys, None))"
        by (auto simp: pbind_eq_Some_Inr)
      from IH[OF e] obtain xs where xs: "ys = (res @ [fst r]) @ xs" "delivers r' it' xs"
        by blast
      have "r = (fst r, None)" using True by (cases r) simp
      with xs n have "delivers r it (fst r # xs)" by auto
      with xs(1) show ?thesis by (intro exI[of _ "fst r # xs"]) simp
    qed
  qed
qed

lemma expand_loop_delivers:
  "expand_loop res r it = Some (Inr (ys, None)) \<Longrightarrow> \<exists>xs. ys = res @ xs \<and> delivers r it xs"
  using expand_loop_delivers_aux by blast

lemma ExpandIterator_iff_delivers:
  "ExpandIterator it = Some (Inr (xs, None)) \<longleftrightarrow>
     (\<exists>r it'. iter_run (ReqSeek 0) it = Some (Inr (r, it')) \<and> delivers r it' xs)"
proof
  assume "ExpandIterator it = Some (Inr (xs, None))"
  then obtain r it' where s: "iter_run (ReqSeek 0) it = Some (Inr (r, it'))"
    and e: "expand_loop [] r it' = Some (Inr (xs, None))"
    by (auto simp: ExpandIterator_def pbind_eq_Some_Inr)
  from expand_loop_delivers[OF e] s show
    "\<exists>r it'. iter_run (ReqSeek 0) it = Some (Inr (r, it')) \<and> delivers r it' xs" by auto
next
  assume "\<exists>r it'. iter_run (ReqSeek 0) it = Some (Inr (r, it')) \<and> delivers r it' xs"
  then obtain r it' where s: "iter_run (ReqSeek 0) it = Some (Inr (r, it'))"
    and d: "delivers r it' xs" by blast
  from delivers_expand_loop[OF d, of "[]"] s show "ExpandIterator it = Some (Inr (xs, None))"
    by (simp add: ExpandIterator_def)
qed

section \<open>\<open>mergeIterator\<close> over any two iterators\<close>

lemma iter_run_MergeIt_Seek:
  "iter_run (ReqSeek t) (MergeIt i1 i2 v1 v2 e1 e2) =
     pbind (iter_run (ReqSeek t) i1) (\<lambda>((v1', e1'), i1').
     pbind (iter_run (ReqSeek t) i2) (\<lambda>((v2', e2'), i2').
     iter_run ReqNext (MergeIt i1' i2' v1' v2' e1' e2')))"
  by (subst iter_run.simps) simp

lemma iter_run_MergeIt_Next:
  "iter_run ReqNext (MergeIt i1 i2 v1 v2 e1 e2) =
     (if e1 = Some EOF \<and> e2 = Some EOF
      then Some (Inr ((0, Some EOF), MergeIt i1 i2 v1 v2 e1 e2))
      else if e1 \<noteq> None then
        (if e1 \<noteq> Some EOF then Some (Inr ((0, e1), MergeIt i1 i2 v1 v2 e1 e2))
         else
           pbind (iter_run ReqNext i2) (\<lambda>((v2', e2'), i2').
           Some (Inr ((v2, None), MergeIt i1 i2' v1 v2' e1 e2'))))
      else if e2 \<noteq> None then
        (if e2 \<noteq> Some EOF then Some (Inr ((0, e2), MergeIt i1 i2 v1 v2 e1 e2))
         else
           pbind (iter_run ReqNext i1) (\<lambda>((v1', e1'), i1').
           Some (Inr ((v1, None), MergeIt i1' i2 v1' v2 e1' e2))))
      else if v1 < v2 then
        pbind (iter_run ReqNext i1) (\<lambda>((v1', e1'), i1').
        Some (Inr ((v1, None), MergeIt i1' i2 v1' v2 e1' e2)))
      else if v2 < v1 then
        pbind (iter_run ReqNext i2) (\<lambda>((v2', e2'), i2').
        Some (Inr ((v2, None), MergeIt i1 i2' v1 v2' e1 e2')))
      else
        pbind (iter_run ReqNext i1) (\<lambda>((v1', e1'), i1').
        pbind (iter_run ReqNext i2) (\<lambda>((v2', e2'), i2').
        Some (Inr ((v1, None), MergeIt i1' i2' v1' v2' e1' e2')))))"
  by (subst iter_run.simps) simp

lemma umerge_Nil2: "umerge xs [] = xs"
  by (cases xs) simp_all

lemma set_umerge: "set (umerge xs ys) = set xs \<union> set ys"
  by (induction xs ys rule: umerge.induct) (auto simp: not_less)

lemma sorted_umerge:
  "sorted_wrt (<) xs \<Longrightarrow> sorted_wrt (<) ys \<Longrightarrow> sorted_wrt (<) (umerge xs ys)"
proof (induction xs ys rule: umerge.induct)
  case (3 x xs y ys)
  consider (lt) "x < y" | (gt) "y < x" | (eq) "x = y" by (meson linorder_less_linear)
  then show ?case
  proof cases
    case lt
    with 3 show ?thesis by (auto simp: set_umerge intro: less_trans)
  next
    case gt
    with 3 show ?thesis by (auto simp: set_umerge dest: less_not_sym intro: less_trans)
  next
    case eq
    with 3 show ?thesis by (auto simp: set_umerge)
  qed
qed simp_all

lemma umerge_sorted_list_of_set:
  assumes "sorted_wrt (<) xs" "sorted_wrt (<) ys"
  shows "umerge xs ys = sorted_list_of_set (set xs \<union> set ys)"
proof (rule sorted_distinct_set_unique)
  from sorted_umerge[OF assms]
  show "sorted (umerge xs ys)" "distinct (umerge xs ys)" by (simp_all add: strict_sorted_iff)
qed (auto simp: set_umerge)

lemma delivers_Nil: "delivers (v, e) it [] \<longleftrightarrow> e = Some EOF"
  by simp

lemma delivers_Cons:
  "delivers (v, e) it (x # xs) \<longleftrightarrow>
     v = x \<and> e = None \<and>
     (\<exists>v' e' it'. iter_run ReqNext it = Some (Inr ((v', e'), it')) \<and> delivers (v', e') it' xs)"
  by auto

lemma mergeIterator_Next_delivers:
  "length b1 + length b2 = n \<Longrightarrow> delivers (v1, e1) i1 b1 \<Longrightarrow> delivers (v2, e2) i2 b2 \<Longrightarrow>
     \<exists>v e S. iter_run ReqNext (MergeIt i1 i2 v1 v2 e1 e2) = Some (Inr ((v, e), S)) \<and>
             delivers (v, e) S (umerge b1 b2)"
proof (induction n arbitrary: b1 b2 v1 e1 i1 v2 e2 i2 rule: less_induct)
  case (less n)
  note d1 = less.prems(2) and d2 = less.prems(3)
  show ?case
  proof (cases b1)
    case n1: Nil
    with d1 have e1: "e1 = Some EOF" by simp
    show ?thesis
    proof (cases b2)
      case Nil
      with d2 have e2: "e2 = Some EOF" by simp
      show ?thesis using n1 Nil by (simp add: iter_run_MergeIt_Next e1 e2)
    next
      case (Cons y ys)
      with d2 obtain v2' e2' i2' where c2: "v2 = y" "e2 = None"
        "iter_run ReqNext i2 = Some (Inr ((v2', e2'), i2'))" "delivers (v2', e2') i2' ys"
        by (auto simp: delivers_Cons)
      have d1': "delivers (v1, e1) i1 []" using e1 by simp
      have "length ([]::u64 list) + length ys < n" using less.prems(1) n1 Cons by simp
      from less.IH[OF this refl d1' c2(4)]
      obtain v e S where "iter_run ReqNext (MergeIt i1 i2' v1 v2' e1 e2') = Some (Inr ((v, e), S))"
        "delivers (v, e) S ys" by auto
      then show ?thesis using n1 Cons c2 e1
        by (simp add: iter_run_MergeIt_Next[of i1 i2] delivers_Cons)
    qed
  next
    case c1: (Cons x xs)
    with d1 obtain v1' e1' i1' where c1v: "v1 = x" "e1 = None"
      "iter_run ReqNext i1 = Some (Inr ((v1', e1'), i1'))" "delivers (v1', e1') i1' xs"
      by (auto simp: delivers_Cons)
    show ?thesis
    proof (cases b2)
      case Nil
      with d2 have e2: "e2 = Some EOF" by simp
      have d2': "delivers (v2, e2) i2 []" using e2 by simp
      have "length xs + length ([]::u64 list) < n" using less.prems(1) c1 Nil by simp
      from less.IH[OF this refl c1v(4) d2']
      obtain v e S where "iter_run ReqNext (MergeIt i1' i2 v1' v2 e1' e2) = Some (Inr ((v, e), S))"
        "delivers (v, e) S xs" by (auto simp: umerge_Nil2)
      then show ?thesis using c1 Nil c1v e2
        by (simp add: iter_run_MergeIt_Next[of i1 i2] delivers_Cons)
    next
      case (Cons y ys)
      with d2 obtain v2' e2' i2' where c2: "v2 = y" "e2 = None"
        "iter_run ReqNext i2 = Some (Inr ((v2', e2'), i2'))" "delivers (v2', e2') i2' ys"
        by (auto simp: delivers_Cons)
      consider (lt) "x < y" | (gt) "y < x" | (eq) "x = y" by (meson linorder_less_linear)
      then show ?thesis
      proof cases
        case lt
        have "length xs + length b2 < n" using less.prems(1) c1 by simp
        from less.IH[OF this refl c1v(4) d2]
        obtain v e S where "iter_run ReqNext (MergeIt i1' i2 v1' v2 e1' e2) = Some (Inr ((v, e), S))"
          "delivers (v, e) S (umerge xs b2)" by auto
        then show ?thesis using c1 Cons c1v c2 lt
          by (simp add: iter_run_MergeIt_Next[of i1 i2] delivers_Cons)
      next
        case gt
        have "length b1 + length ys < n" using less.prems(1) Cons by simp
        from less.IH[OF this refl d1 c2(4)]
        obtain v e S where "iter_run ReqNext (MergeIt i1 i2' v1 v2' e1 e2') = Some (Inr ((v, e), S))"
          "delivers (v, e) S (umerge b1 ys)" by auto
        then show ?thesis using c1 Cons c1v c2 gt less_not_sym[OF gt]
          by (simp add: iter_run_MergeIt_Next[of i1 i2] delivers_Cons)
      next
        case eq
        have "length xs + length ys < n" using less.prems(1) c1 Cons by simp
        from less.IH[OF this refl c1v(4) c2(4)]
        obtain v e S where "iter_run ReqNext (MergeIt i1' i2' v1' v2' e1' e2') = Some (Inr ((v, e), S))"
          "delivers (v, e) S (umerge xs ys)" by auto
        then show ?thesis using c1 Cons c1v c2 eq
          by (simp add: iter_run_MergeIt_Next[of i1 i2] delivers_Cons)
      qed
    qed
  qed
qed

lemma ExpandIterator_MergeIt:
  assumes "ExpandIterator i1 = Some (Inr (xs, None))" "ExpandIterator i2 = Some (Inr (ys, None))"
  shows "ExpandIterator (MergeIt i1 i2 v1 v2 e1 e2) = Some (Inr (umerge xs ys, None))"
proof -
  from assms(1) obtain v1' e1' i1' where
    s1: "iter_run (ReqSeek 0) i1 = Some (Inr ((v1', e1'), i1'))" "delivers (v1', e1') i1' xs"
    by (auto simp: ExpandIterator_iff_delivers)
  from assms(2) obtain v2' e2' i2' where
    s2: "iter_run (ReqSeek 0) i2 = Some (Inr ((v2', e2'), i2'))" "delivers (v2', e2') i2' ys"
    by (auto simp: ExpandIterator_iff_delivers)
  from mergeIterator_Next_delivers[OF refl s1(2) s2(2)] obtain v e S where
    "iter_run ReqNext (MergeIt i1' i2' v1' v2' e1' e2') = Some (Inr ((v, e), S))"
    "delivers (v, e) S (umerge xs ys)" by blast
  then have "\<exists>r it'. iter_run (ReqSeek 0) (MergeIt i1 i2 v1 v2 e1 e2) = Some (Inr (r, it')) \<and>
      delivers r it' (umerge xs ys)"
    by (simp add: iter_run_MergeIt_Seek s1(1) s2(1))
  then show ?thesis by (simp only: ExpandIterator_iff_delivers)
qed

section \<open>List iterators, and \<open>intersectIterator\<close> over two of them\<close>

lemma iter_run_PlainList_Next:
  "iter_run ReqNext (PlainList l p) = Some (Inr (plainListIterator_Next l p))"
  by (subst iter_run.simps) simp

lemma iter_run_PlainList_Seek:
  "iter_run (ReqSeek t) (PlainList l p) = Some (Inr (plainListIterator_Seek l p t))"
  by (subst iter_run.simps) simp

lemma iter_run_IntersectIt_Seek:
  "iter_run (ReqSeek t) (IntersectIt i1 i2 v1 v2 e1 e2) =
     pbind (iter_run (ReqSeek t) i1) (\<lambda>((v1', e1'), i1').
     pbind (iter_run (ReqSeek t) i2) (\<lambda>((v2', e2'), i2').
     iter_run ReqNext (IntersectIt i1' i2' v1' v2' e1' e2')))"
  by (subst iter_run.simps) simp

lemma iter_run_IntersectIt_Next:
  "iter_run ReqNext (IntersectIt i1 i2 v1 v2 e1 e2) =
     (if e1 \<noteq> None then Some (Inr ((0, e1), IntersectIt i1 i2 v1 v2 e1 e2))
      else if e2 \<noteq> None then Some (Inr ((0, e2), IntersectIt i1 i2 v1 v2 e1 e2))
      else if v1 < v2 then
        pbind (iter_run (ReqSeek v2) i1) (\<lambda>((v1', e1'), i1').
        iter_run ReqNext (IntersectIt i1' i2 v1' v2 e1' e2))
      else if v2 < v1 then
        pbind (iter_run (ReqSeek v1) i2) (\<lambda>((v2', e2'), i2').
        iter_run ReqNext (IntersectIt i1 i2' v1 v2' e1 e2'))
      else
        pbind (iter_run ReqNext i1) (\<lambda>((v1', e1'), i1').
        pbind (iter_run ReqNext i2) (\<lambda>((v2', e2'), i2').
        Some (Inr ((v1, None), IntersectIt i1' i2' v1' v2' e1' e2')))))"
  by (subst iter_run.simps) simp

lemma buffered_Next:
  "\<exists>v e p'. plainListIterator_Next l p = ((v, e), PlainList l p') \<and> buffered l p' v e (drop p l)"
  by (auto simp: plainListIterator_Next_def buffered_def)

lemma buffered_Seek:
  assumes "sorted l"
  shows "\<exists>v e p'. plainListIterator_Seek l p t = ((v, e), PlainList l p') \<and>
           buffered l p' v e (dropWhile (\<lambda>x. x < t) l)"
  using buffered_Next[of l "length (takeWhile (\<lambda>x. x < t) l)"] assms
  by (simp add: plainListIterator_Seek_def sort_Search_sorted dropWhile_eq_drop)

lemma buffered_Cons:
  assumes "buffered l p v e b" "e = None"
  shows "p \<ge> 1" "p \<le> length l" "b = v # drop p l" "v = l ! (p - 1)"
proof -
  from assms have h: "1 \<le> p" "p \<le> length l" "b = drop (p - 1) l" "v = l ! (p - 1)"
    by (auto simp: buffered_def)
  then show "p \<ge> 1" "p \<le> length l" "v = l ! (p - 1)" by auto
  from h have "p - 1 < length l" by simp
  from Cons_nth_drop_Suc[OF this] h show "b = v # drop p l" by simp
qed

lemma buffered_Nil: "buffered l p v (Some EOF) b \<Longrightarrow> b = []"
  by (simp add: buffered_def)

lemma buffered_err: "buffered l p v e b \<Longrightarrow> e = None \<or> e = Some EOF"
  by (auto simp: buffered_def)

lemma buffered_sorted:
  "sorted_wrt (<) l \<Longrightarrow> buffered l p v e b \<Longrightarrow> sorted_wrt (<) b"
  by (auto simp: buffered_def sorted_wrt_drop)

lemma dropWhile_buffered:
  assumes l: "sorted_wrt (<) l" and b: "buffered l p v None b" and vt: "v < t"
  shows "dropWhile (\<lambda>x. x < t) l = dropWhile (\<lambda>x. x < t) (drop p l)"
proof -
  note h = buffered_Cons[OF b refl]
  have split: "l = take p l @ drop p l" by simp
  have "\<forall>x \<in> set (take p l). x < t"
  proof
    fix x assume "x \<in> set (take p l)"
    then obtain i where i: "i < p" "x = l ! i"
      using h(2) by (auto simp: in_set_conv_nth)
    have "l ! i \<le> l ! (p - 1)"
    proof (cases "i = p - 1")
      case True then show ?thesis by simp
    next
      case False
      with i have "i < p - 1" by simp
      moreover have "p - 1 < length l" using h by simp
      ultimately have "l ! i < l ! (p - 1)" using l by (simp add: sorted_wrt_nth_less)
      then show ?thesis by simp
    qed
    with i h(4) vt show "x < t" by simp
  qed
  then have "dropWhile (\<lambda>x. x < t) (take p l @ drop p l) = dropWhile (\<lambda>x. x < t) (drop p l)"
    by (intro dropWhile_append2) simp
  then show ?thesis by simp
qed

lemma inter_skip_left:
  fixes t :: u64
  assumes "\<forall>y \<in> set b2. t \<le> y"
  shows "filter (\<lambda>x. x \<in> set b2) (dropWhile (\<lambda>x. x < t) b1) = filter (\<lambda>x. x \<in> set b2) b1"
proof -
  have "\<forall>x \<in> set (takeWhile (\<lambda>x. x < t) b1). x \<notin> set b2"
  proof (intro ballI notI)
    fix x assume "x \<in> set (takeWhile (\<lambda>x. x < t) b1)" and x2: "x \<in> set b2"
    then have "x < t" by (auto dest: set_takeWhileD)
    moreover have "t \<le> x" using assms x2 by blast
    ultimately show False using leD by blast
  qed
  then have "filter (\<lambda>x. x \<in> set b2) (takeWhile (\<lambda>x. x < t) b1) = []"
    by (simp add: filter_empty_conv)
  then have "filter (\<lambda>x. x \<in> set b2) (takeWhile (\<lambda>x. x < t) b1 @ dropWhile (\<lambda>x. x < t) b1) =
             filter (\<lambda>x. x \<in> set b2) (dropWhile (\<lambda>x. x < t) b1)"
    by (simp only: filter_append append_Nil)
  then show ?thesis by simp
qed

lemma inter_skip_right:
  fixes t :: u64
  assumes "\<forall>x \<in> set b1. t \<le> x"
  shows "filter (\<lambda>x. x \<in> set (dropWhile (\<lambda>y. y < t) b2)) b1 = filter (\<lambda>x. x \<in> set b2) b1"
proof (rule filter_cong[OF refl])
  fix x assume x: "x \<in> set b1"
  have "set b2 = set (takeWhile (\<lambda>y. y < t) b2) \<union> set (dropWhile (\<lambda>y. y < t) b2)"
    by (metis set_append takeWhile_dropWhile_id)
  moreover have "x \<notin> set (takeWhile (\<lambda>y. y < t) b2)"
  proof
    assume "x \<in> set (takeWhile (\<lambda>y. y < t) b2)"
    then have "x < t" by (auto dest: set_takeWhileD)
    moreover have "t \<le> x" using assms x by blast
    ultimately show False using leD by blast
  qed
  ultimately show "(x \<in> set (dropWhile (\<lambda>y. y < t) b2)) = (x \<in> set b2)" by auto
qed

lemma inter_equal:
  fixes v :: u64
  assumes "sorted_wrt (<) (v # r1)"
  shows "filter (\<lambda>x. x \<in> set (v # r2)) (v # r1) = v # filter (\<lambda>x. x \<in> set r2) r1"
proof -
  have "v \<notin> set r1"
  proof
    assume "v \<in> set r1"
    with assms have "v < v" by auto
    then show False by simp
  qed
  then have "filter (\<lambda>x. x \<in> set (v # r2)) r1 = filter (\<lambda>x. x \<in> set r2) r1"
    by (intro filter_cong[OF refl]) auto
  then show ?thesis by simp
qed


lemma intersect_Next_plain:
  assumes l1: "sorted_wrt (<) l1" and l2: "sorted_wrt (<) l2"
  shows "length b1 + length b2 = n \<Longrightarrow>
         buffered l1 p1 v1 e1 b1 \<Longrightarrow> buffered l2 p2 v2 e2 b2 \<Longrightarrow>
         \<exists>r S. iter_run ReqNext (IntersectIt (PlainList l1 p1) (PlainList l2 p2) v1 v2 e1 e2) =
                  Some (Inr (r, S)) \<and>
               delivers r S (filter (\<lambda>x. x \<in> set b2) b1)"
proof (induction n arbitrary: b1 b2 p1 p2 v1 v2 e1 e2 rule: less_induct)
  case (less n)
  note B1 = less.prems(2) and B2 = less.prems(3)
  let ?S = "IntersectIt (PlainList l1 p1) (PlainList l2 p2) v1 v2 e1 e2"
  note s1 = buffered_sorted[OF l1 B1] and s2 = buffered_sorted[OF l2 B2]
  show ?case
  proof (cases "e1 = None")
    case False
    with buffered_err[OF B1] have e1: "e1 = Some EOF" by simp
    with B1 have "b1 = []" by (simp add: buffered_Nil)
    then show ?thesis
      by (simp add: iter_run_IntersectIt_Next e1)
  next
    case e1: True
    show ?thesis
    proof (cases "e2 = None")
      case False
      with buffered_err[OF B2] have e2: "e2 = Some EOF" by simp
      with B2 have "b2 = []" by (simp add: buffered_Nil)
      then show ?thesis
        by (simp add: iter_run_IntersectIt_Next e1 e2)
    next
      case e2: True
      note c1 = buffered_Cons[OF B1 e1] and c2 = buffered_Cons[OF B2 e2]
      have ge1: "\<forall>x \<in> set b1. v1 \<le> x" using s1 c1(3) by auto
      have ge2: "\<forall>y \<in> set b2. v2 \<le> y" using s2 c2(3) by auto
      consider (lt) "v1 < v2" | (gt) "v2 < v1" | (eq) "v1 = v2"
        by (meson linorder_less_linear)
      then show ?thesis
      proof cases
        case lt
        from buffered_Seek[of l1 p1 v2] l1 obtain v1' e1' p1' where
          sk: "plainListIterator_Seek l1 p1 v2 = ((v1', e1'), PlainList l1 p1')" and
          B1': "buffered l1 p1' v1' e1' (dropWhile (\<lambda>x. x < v2) l1)"
          by (auto simp: strict_sorted_iff)
        let ?b1' = "dropWhile (\<lambda>x. x < v2) l1"
        have d: "?b1' = dropWhile (\<lambda>x. x < v2) (drop p1 l1)"
          using dropWhile_buffered[OF l1 _ lt] B1 e1 by simp
        have "length ?b1' \<le> length (drop p1 l1)"
          unfolding d by (rule length_dropWhile_le)
        then have less: "length ?b1' + length b2 < n"
          using less.prems(1) c1(3) by simp
        have d2: "?b1' = dropWhile (\<lambda>x. x < v2) b1"
          using d c1(3) lt by simp
        have f: "filter (\<lambda>x. x \<in> set b2) ?b1' = filter (\<lambda>x. x \<in> set b2) b1"
          unfolding d2 by (rule inter_skip_left[OF ge2])
        have step: "iter_run ReqNext ?S =
            iter_run ReqNext (IntersectIt (PlainList l1 p1') (PlainList l2 p2) v1' v2 e1' e2)"
          using lt e1 e2
          by (simp add: iter_run_IntersectIt_Next[of "PlainList l1 p1"] iter_run_PlainList_Seek sk)
        from less.IH[OF less refl B1' B2] show ?thesis unfolding step f .
      next
        case gt
        from buffered_Seek[of l2 p2 v1] l2 obtain v2' e2' p2' where
          sk: "plainListIterator_Seek l2 p2 v1 = ((v2', e2'), PlainList l2 p2')" and
          B2': "buffered l2 p2' v2' e2' (dropWhile (\<lambda>x. x < v1) l2)"
          by (auto simp: strict_sorted_iff)
        let ?b2' = "dropWhile (\<lambda>x. x < v1) l2"
        have d: "?b2' = dropWhile (\<lambda>x. x < v1) (drop p2 l2)"
          using dropWhile_buffered[OF l2 _ gt] B2 e2 by simp
        have "length ?b2' \<le> length (drop p2 l2)"
          unfolding d by (rule length_dropWhile_le)
        then have less: "length b1 + length ?b2' < n"
          using less.prems(1) c2(3) by simp
        have d2: "?b2' = dropWhile (\<lambda>x. x < v1) b2"
          using d c2(3) gt by simp
        have f: "filter (\<lambda>x. x \<in> set ?b2') b1 = filter (\<lambda>x. x \<in> set b2) b1"
          unfolding d2 by (rule inter_skip_right[OF ge1])
        have step: "iter_run ReqNext ?S =
            iter_run ReqNext (IntersectIt (PlainList l1 p1) (PlainList l2 p2') v1 v2' e1 e2')"
          using gt less_not_sym[OF gt] e1 e2
          by (simp add: iter_run_IntersectIt_Next[of "PlainList l1 p1"] iter_run_PlainList_Seek sk)
        from less.IH[OF less refl B1 B2'] show ?thesis unfolding step f .
      next
        case eq
        from buffered_Next[of l1 p1] obtain v1' e1' p1' where
          n1: "plainListIterator_Next l1 p1 = ((v1', e1'), PlainList l1 p1')" and
          B1': "buffered l1 p1' v1' e1' (drop p1 l1)" by blast
        from buffered_Next[of l2 p2] obtain v2' e2' p2' where
          n2: "plainListIterator_Next l2 p2 = ((v2', e2'), PlainList l2 p2')" and
          B2': "buffered l2 p2' v2' e2' (drop p2 l2)" by blast
        let ?S' = "IntersectIt (PlainList l1 p1') (PlainList l2 p2') v1' v2' e1' e2'"
        have step: "iter_run ReqNext ?S = Some (Inr ((v1, None), ?S'))"
          using eq e1 e2
          by (simp add: iter_run_IntersectIt_Next[of "PlainList l1 p1"] iter_run_PlainList_Next n1 n2)
        have less: "length (drop p1 l1) + length (drop p2 l2) < n"
          using less.prems(1) c1(3) c2(3) by simp
        from less.IH[OF less refl B1' B2'] obtain r' S'' where
          nx: "iter_run ReqNext ?S' = Some (Inr (r', S''))"
          "delivers r' S'' (filter (\<lambda>x. x \<in> set (drop p2 l2)) (drop p1 l1))" by blast
        have f: "filter (\<lambda>x. x \<in> set b2) b1 = v1 # filter (\<lambda>x. x \<in> set (drop p2 l2)) (drop p1 l1)"
          using inter_equal[of v1 "drop p1 l1" "drop p2 l2"] s1 c1(3) c2(3) eq by simp
        have dl: "delivers (v1, None) ?S'
            (v1 # filter (\<lambda>x. x \<in> set (drop p2 l2)) (drop p1 l1))"
          unfolding delivers.simps using nx by blast
        show ?thesis unfolding step f using dl by blast
      qed
    qed
  qed
qed

lemma dropWhile_less_zero: "dropWhile (\<lambda>x. x < (0::u64)) l = l"
  by (induction l) auto


lemma ExpandIterator_intersect_plain:
  assumes l1: "sorted_wrt (<) l1" and l2: "sorted_wrt (<) l2"
  shows "ExpandIterator (IntersectIt (PlainList l1 p1) (PlainList l2 p2) v1 v2 e1 e2) =
           Some (Inr (filter (\<lambda>x. x \<in> set l2) l1, None))"
proof -
  from buffered_Seek[of l1 p1 0] l1 obtain v1' e1' p1' where
    sk1: "plainListIterator_Seek l1 p1 0 = ((v1', e1'), PlainList l1 p1')" and
    B1: "buffered l1 p1' v1' e1' l1"
    by (auto simp: strict_sorted_iff dropWhile_less_zero)
  from buffered_Seek[of l2 p2 0] l2 obtain v2' e2' p2' where
    sk2: "plainListIterator_Seek l2 p2 0 = ((v2', e2'), PlainList l2 p2')" and
    B2: "buffered l2 p2' v2' e2' l2"
    by (auto simp: strict_sorted_iff dropWhile_less_zero)
  from intersect_Next_plain[OF l1 l2 refl B1 B2] obtain r S where
    "iter_run ReqNext (IntersectIt (PlainList l1 p1') (PlainList l2 p2') v1' v2' e1' e2') =
       Some (Inr (r, S))"
    "delivers r S (filter (\<lambda>x. x \<in> set l2) l1)" by blast
  then have "\<exists>r it'. iter_run (ReqSeek 0) (IntersectIt (PlainList l1 p1) (PlainList l2 p2) v1 v2 e1 e2) =
        Some (Inr (r, it')) \<and> delivers r it' (filter (\<lambda>x. x \<in> set l2) l1)"
    by (simp add: iter_run_IntersectIt_Seek iter_run_PlainList_Seek sk1 sk2)
  then show ?thesis by (simp only: ExpandIterator_iff_delivers)
qed

lemma filter_mem_sorted_list_of_set:
  fixes l1 :: "u64 list"
  assumes "sorted_wrt (<) l1"
  shows "filter (\<lambda>x. x \<in> set l2) l1 = sorted_list_of_set (set l1 \<inter> set l2)"
proof (rule sorted_distinct_set_unique)
  have "sorted_wrt (<) (filter (\<lambda>x. x \<in> set l2) l1)" using assms by (rule sorted_wrt_filter)
  then show "sorted (filter (\<lambda>x. x \<in> set l2) l1)" "distinct (filter (\<lambda>x. x \<in> set l2) l1)"
    by (simp_all add: strict_sorted_iff)
qed auto

text \<open>A list iterator produces its list: \<open>ExpandIterator\<close> returns it without error.\<close>

lemma plainListIterator_Next_delivers:
  "length l - p = n \<Longrightarrow>
   \<exists>r it'. plainListIterator_Next l p = (r, it') \<and> delivers r it' (drop p l)"
proof (induction n arbitrary: p)
  case 0
  then show ?case by (simp add: plainListIterator_Next_def)
next
  case (Suc n)
  then have p: "p < length l" by simp
  from Suc.prems have "length l - (p + 1) = n" by simp
  from Suc.IH[OF this] obtain r it' where
    nx: "plainListIterator_Next l (p + 1) = (r, it')" "delivers r it' (drop (p + 1) l)" by blast
  have d: "drop p l = l ! p # drop (p + 1) l" using Cons_nth_drop_Suc[OF p] by simp
  have "delivers (l ! p, None) (PlainList l (p + 1)) (l ! p # drop (p + 1) l)"
    unfolding delivers.simps using nx by (simp add: iter_run_PlainList_Next)
  with p show ?case unfolding d by (simp add: plainListIterator_Next_def)
qed

lemma ExpandIterator_PlainList:
  assumes "sorted l"
  shows "ExpandIterator (PlainList l p) = Some (Inr (l, None))"
proof -
  have "takeWhile (\<lambda>x. x < 0) l = []" by (cases l) simp_all
  then have "sort_Search (length l) (\<lambda>i. l ! i \<ge> 0) = 0"
    using sort_Search_sorted[OF assms, of 0] by (simp only: list.size)
  then have sk: "plainListIterator_Seek l p 0 = plainListIterator_Next l 0"
    by (simp add: plainListIterator_Seek_def)
  from plainListIterator_Next_delivers[OF refl, of l 0] obtain r it' where
    "plainListIterator_Next l 0 = (r, it')" "delivers r it' l" by auto
  then have "\<exists>r it'. iter_run (ReqSeek 0) (PlainList l p) = Some (Inr (r, it')) \<and> delivers r it' l"
    by (simp add: iter_run_PlainList_Seek sk)
  then show ?thesis by (simp only: ExpandIterator_iff_delivers)
qed

lemma ExpandIterator_plainListIterator:
  "ExpandIterator (newPlainListIterator xs) = Some (Inr (sort xs, None))"
  by (simp add: newPlainListIterator_def ExpandIterator_PlainList)

lemma sort_strict:
  fixes xs :: "u64 list"
  shows "distinct xs \<Longrightarrow> sorted_wrt (<) (sort xs)"
  by (simp add: strict_sorted_iff)

subsection \<open>The claims about the iterators\<close>

text \<open>
  Claim C4. Let \<open>i1\<close> and \<open>i2\<close> be any two iterators (list iterators, skipping
  iterators, or combinators over such, in any state) that each produce a strictly
  ascending sequence of IDs: \<open>ExpandIterator\<close> returns \<open>xs\<close> for \<open>i1\<close> and \<open>ys\<close> for \<open>i2\<close>,
  without error. Then \<open>ExpandIterator(Merge(i1, i2))\<close> returns, without error, the
  sorted list of the IDs of \<open>xs\<close> and \<open>ys\<close>, an ID of both once: on equal heads
  \<open>mergeIterator.Next\<close> returns the value once and advances both sides, and when a
  side is exhausted it drains the other (lemma \<open>iter_run_MergeIt_Next\<close>).
\<close>

theorem Merge_sorted_union:
  assumes "ExpandIterator i1 = Some (Inr (xs, None))"
    and "ExpandIterator i2 = Some (Inr (ys, None))"
    and "sorted_wrt (<) xs" and "sorted_wrt (<) ys"
  shows "\<exists>it. Merge [i1, i2] = Some it \<and>
           ExpandIterator it = Some (Inr (sorted_list_of_set (set xs \<union> set ys), None))"
  using ExpandIterator_MergeIt[OF assms(1,2), of 0 0 None None]
    umerge_sorted_list_of_set[OF assms(3,4)]
  by (simp add: Merge_def)

text \<open>
  The theorem at a skipping iterator over the pages \<open>[1, 2]\<close> and \<open>[10, 20]\<close> and at the
  intersection of two list iterators.
\<close>

theorem Merge_sorted_union_witness:
  "ExpandIterator
     (SkippingIt (PlainSkiplist (newPlainSkiplistIterator [(1, 100), (10, 200)]))
        [(100, newPlainListIterator [1, 2]), (200, newPlainListIterator [10, 20])]
        None None) = Some (Inr ([1, 2, 10, 20], None)) \<and>
   ExpandIterator
     (IntersectIt (newPlainListIterator [2, 5, 10, 30]) (newPlainListIterator [40, 30, 10, 2])
        0 0 None None) = Some (Inr ([2, 10, 30], None)) \<and>
   sorted_wrt (<) [1, 2, 10, 20 :: u64] \<and> sorted_wrt (<) [2, 10, 30 :: u64] \<and>
   (\<exists>it. Merge
           [SkippingIt (PlainSkiplist (newPlainSkiplistIterator [(1, 100), (10, 200)]))
              [(100, newPlainListIterator [1, 2]), (200, newPlainListIterator [10, 20])]
              None None,
            IntersectIt (newPlainListIterator [2, 5, 10, 30])
              (newPlainListIterator [40, 30, 10, 2]) 0 0 None None] = Some it \<and>
         ExpandIterator it = Some (Inr ([1, 2, 10, 20, 30], None)))"
proof -
  let ?sk = "SkippingIt (PlainSkiplist (newPlainSkiplistIterator [(1, 100), (10, 200)]))
        [(100, newPlainListIterator [1, 2]), (200, newPlainListIterator [10, 20])] None None"
  let ?in = "IntersectIt (newPlainListIterator [2, 5, 10, 30])
        (newPlainListIterator [40, 30, 10, 2]) 0 0 None None"
  have e1: "ExpandIterator ?sk = Some (Inr ([1, 2, 10, 20], None))" by code_simp
  have e2: "ExpandIterator ?in = Some (Inr ([2, 10, 30], None))" by code_simp
  have s1: "sorted_wrt (<) [1, 2, 10, 20 :: u64]" by code_simp
  have s2: "sorted_wrt (<) [2, 10, 30 :: u64]" by code_simp
  have s: "sorted_list_of_set (set [1, 2, 10, 20 :: u64] \<union> set [2, 10, 30]) =
             [1, 2, 10, 20, 30]" by code_simp
  from Merge_sorted_union[OF e1 e2 s1 s2]
  have "\<exists>it. Merge [?sk, ?in] = Some it \<and>
          ExpandIterator it = Some (Inr ([1, 2, 10, 20, 30], None))"
    unfolding s .
  with e1 e2 s1 s2 show ?thesis by (intro conjI)
qed

text \<open>
  For two list iterators the hypotheses hold whenever the lists have no repeated ID.
\<close>

lemma Merge_plainListIterator_sorted_union:
  assumes "distinct xs" and "distinct ys"
  shows "\<exists>it. Merge [newPlainListIterator xs, newPlainListIterator ys] = Some it \<and>
           ExpandIterator it = Some (Inr (sorted_list_of_set (set xs \<union> set ys), None))"
proof -
  have s1: "sorted_wrt (<) (sort xs)" and s2: "sorted_wrt (<) (sort ys)"
    using assms by (simp_all add: sort_strict)
  have "umerge (sort xs) (sort ys) = sorted_list_of_set (set xs \<union> set ys)"
    using umerge_sorted_list_of_set[OF s1 s2] by simp
  with ExpandIterator_MergeIt[OF ExpandIterator_plainListIterator ExpandIterator_plainListIterator,
      of xs ys 0 0 None None]
  show ?thesis by (simp add: Merge_def)
qed

text \<open>
  Claim C3 says that \<open>ExpandIterator(Intersect(i1, i2))\<close> returns the sorted
  intersection for every two iterators that each produce a strictly ascending
  sequence. The skipping iterator over the skiplist \<open>{1: 100, 10: 200}\<close> with the page
  \<open>[1, 2]\<close> at 100 and the page \<open>[10, 20]\<close> at 200 produces \<open>[1, 2, 10, 20]\<close>. Intersected
  with the list iterator over \<open>[20]\<close> the run panics with an index out of range:
  \<open>intersectIterator.Next\<close> calls \<open>Seek(20)\<close> on the skipping iterator, and
  \<open>plainSkiplistIterator.seek\<close> evaluates \<open>it.keys[2]\<close>. Intersected with the list
  iterator over \<open>[5, 10]\<close> the run returns no ID, while 10 is in both sequences:
  \<open>skippingIterator.Seek(5)\<close> goes to the page \<open>[1, 2]\<close> and returns the \<open>io.EOF\<close> of
  that page instead of the ID 10 of the next.
\<close>

theorem Intersect_skippingIterator_not_intersection:
  "ExpandIterator
     (SkippingIt (PlainSkiplist (newPlainSkiplistIterator [(1, 100), (10, 200)]))
        [(100, newPlainListIterator [1, 2]), (200, newPlainListIterator [10, 20])]
        None None) = Some (Inr ([1, 2, 10, 20], None)) \<and>
   ExpandIterator (newPlainListIterator [20]) = Some (Inr ([20], None)) \<and>
   ExpandIterator (newPlainListIterator [5, 10]) = Some (Inr ([5, 10], None)) \<and>
   map_option ExpandIterator
     (Intersect
        [SkippingIt (PlainSkiplist (newPlainSkiplistIterator [(1, 100), (10, 200)]))
           [(100, newPlainListIterator [1, 2]), (200, newPlainListIterator [10, 20])]
           None None,
         newPlainListIterator [20]]) = Some (Some (Inl IndexOutOfRange)) \<and>
   map_option ExpandIterator
     (Intersect
        [SkippingIt (PlainSkiplist (newPlainSkiplistIterator [(1, 100), (10, 200)]))
           [(100, newPlainListIterator [1, 2]), (200, newPlainListIterator [10, 20])]
           None None,
         newPlainListIterator [5, 10]]) = Some (Some (Inr ([], None)))"
  by code_simp

text \<open>
  Over two list iterators, whose \<open>Seek\<close> moves to the ID or to the closest following
  one, the leapfrog of \<open>intersectIterator\<close> returns the sorted intersection.
\<close>

lemma Intersect_plainListIterator_sorted_intersection:
  assumes "distinct xs" and "distinct ys"
  shows "\<exists>it. Intersect [newPlainListIterator xs, newPlainListIterator ys] = Some it \<and>
           ExpandIterator it = Some (Inr (sorted_list_of_set (set xs \<inter> set ys), None))"
proof -
  have s1: "sorted_wrt (<) (sort xs)" and s2: "sorted_wrt (<) (sort ys)"
    using assms by (simp_all add: sort_strict)
  have "filter (\<lambda>x. x \<in> set (sort ys)) (sort xs) = sorted_list_of_set (set xs \<inter> set ys)"
    using filter_mem_sorted_list_of_set[OF s1, of "sort ys"] by simp
  with ExpandIterator_intersect_plain[OF s1 s2, of 0 0 0 0 None None]
  show ?thesis by (simp add: Intersect_def newPlainListIterator_def)
qed

text \<open>
  The same with the skiplist keyed as the spec has it, by the last ID of each page
  (\<open>{2: 100, 20: 200}\<close>), intersected with the list iterator over \<open>[10]\<close>: \<open>seek(10)\<close>
  steps back from the entry 20 to the entry 2, whose page ends before 10.
\<close>

lemma Intersect_skippingIterator_keyed_by_last_ID:
  "ExpandIterator
     (SkippingIt (PlainSkiplist (newPlainSkiplistIterator [(2, 100), (20, 200)]))
        [(100, newPlainListIterator [1, 2]), (200, newPlainListIterator [10, 20])]
        None None) = Some (Inr ([1, 2, 10, 20], None)) \<and>
   map_option ExpandIterator
     (Intersect
        [SkippingIt (PlainSkiplist (newPlainSkiplistIterator [(2, 100), (20, 200)]))
           [(100, newPlainListIterator [1, 2]), (200, newPlainListIterator [10, 20])]
           None None,
         newPlainListIterator [10]]) = Some (Some (Inr ([], None)))"
  by code_simp

text \<open>
  The same over the skiplist cursor of the store, \<open>boltSkiplistCursor\<close>, which is what
  \<open>postingsStore.Iter\<close> builds its skipping iterator on. On the bucket
  \<open>{1: 100, 10: 200}\<close>, \<open>seek(5)\<close> finds the entry 10, steps back to the entry 1, and the
  page \<open>[1, 2]\<close> returns \<open>io.EOF\<close>. On the bucket \<open>{2: 100, 20: 200}\<close>, keyed by the last
  ID of each page, \<open>seek(5)\<close> finds the entry 20 and steps back to the entry 2, with the
  same result.
\<close>

lemma Intersect_skippingIterator_boltSkiplistCursor:
  "ExpandIterator
     (SkippingIt
        (BoltSkiplist \<lparr>sc_k = 7, sc_c = None,
           sc_bkt = [(encodeUint64 1, encodeUint64 100), (encodeUint64 10, encodeUint64 200)]\<rparr>)
        [(100, newPlainListIterator [1, 2]), (200, newPlainListIterator [10, 20])]
        None None) = Some (Inr ([1, 2, 10, 20], None)) \<and>
   map_option ExpandIterator
     (Intersect
        [SkippingIt
           (BoltSkiplist \<lparr>sc_k = 7, sc_c = None,
              sc_bkt = [(encodeUint64 1, encodeUint64 100), (encodeUint64 10, encodeUint64 200)]\<rparr>)
           [(100, newPlainListIterator [1, 2]), (200, newPlainListIterator [10, 20])]
           None None,
         newPlainListIterator [5, 10]]) = Some (Some (Inr ([], None)))"
  by code_simp

lemma Intersect_skippingIterator_boltSkiplistCursor_keyed_by_last_ID:
  "ExpandIterator
     (SkippingIt
        (BoltSkiplist \<lparr>sc_k = 7, sc_c = None,
           sc_bkt = [(encodeUint64 2, encodeUint64 100), (encodeUint64 20, encodeUint64 200)]\<rparr>)
        [(100, newPlainListIterator [1, 2]), (200, newPlainListIterator [10, 20])]
        None None) = Some (Inr ([1, 2, 10, 20], None)) \<and>
   map_option ExpandIterator
     (Intersect
        [SkippingIt
           (BoltSkiplist \<lparr>sc_k = 7, sc_c = None,
              sc_bkt = [(encodeUint64 2, encodeUint64 100), (encodeUint64 20, encodeUint64 200)]\<rparr>)
           [(100, newPlainListIterator [1, 2]), (200, newPlainListIterator [10, 20])]
           None None,
         newPlainListIterator [5, 10]]) = Some (Some (Inr ([], None)))"
  by code_simp

text \<open>
  \<open>plainSkiplistIterator.seek\<close> panics exactly when there is a key and the target is
  greater than every key: \<open>sort.Search\<close> then returns \<open>len(it.keys)\<close>, and
  \<open>it.keys[pos]\<close> is evaluated because \<open>pos > 0\<close>.
\<close>

lemma plainSkiplistIterator_seek_panics_iff:
  assumes "sorted (psl_keys it)"
  shows "plainSkiplistIterator_seek it tid = Inl IndexOutOfRange \<longleftrightarrow>
           psl_keys it \<noteq> [] \<and> (\<forall>k \<in> set (psl_keys it). k < tid)"
proof -
  let ?ks = "psl_keys it"
  let ?tw = "takeWhile (\<lambda>x. x < tid) ?ks"
  have pos: "sort_Search (length ?ks) (\<lambda>i. ?ks ! i \<ge> tid) = length ?tw"
    by (rule sort_Search_sorted[OF assms])
  have le: "length ?tw \<le> length ?ks" by (rule length_takeWhile_le)
  have all: "length ?tw = length ?ks \<longleftrightarrow> (\<forall>k \<in> set ?ks. k < tid)"
  proof
    assume "length ?tw = length ?ks"
    then have "?tw = ?ks" using takeWhile_eq_take[of "\<lambda>x. x < tid" ?ks] by simp
    then show "\<forall>k \<in> set ?ks. k < tid" by (simp only: takeWhile_eq_all_conv)
  next
    assume "\<forall>k \<in> set ?ks. k < tid"
    then have "?tw = ?ks" by (simp only: takeWhile_eq_all_conv)
    then show "length ?tw = length ?ks" by (rule arg_cong)
  qed
  show ?thesis
  proof (cases "?ks = []")
    case True
    then show ?thesis by (simp add: plainSkiplistIterator_seek_def sort_Search_def search_loop.simps)
  next
    case False
    then have "(0 < length ?tw \<and> \<not> length ?tw < length ?ks) = (length ?tw = length ?ks)"
      using le by auto
    with False all show ?thesis
      by (auto simp: plainSkiplistIterator_seek_def pos Let_def)
  qed
qed

text \<open>
  Claim C9 says that \<open>plainSkiplistIterator.seek\<close> indexes its key list in bounds only
  and never panics. On the map \<open>{1: 10}\<close> and the target 2 the call panics with an
  index out of range.
\<close>

theorem plainSkiplistIterator_seek_beyond_last_key_panics:
  "plainSkiplistIterator_seek (newPlainSkiplistIterator [(1, 10)]) 2 = Inl IndexOutOfRange"
  by code_simp

text \<open>
  Claim C10. Called with no iterator, \<open>Merge\<close> and \<open>Intersect\<close> return \<open>nil\<close>, not
  an iterator that reports \<open>io.EOF\<close>; \<open>Next\<close>, \<open>Seek\<close> and \<open>Close\<close> on the result
  dereference \<open>nil\<close>.
\<close>

theorem Merge_Intersect_no_iterators_nil:
  "Merge [] = None \<and> Intersect [] = None \<and>
   Iterator_Next (Merge []) = Some (Inl NilDereference) \<and>
   Iterator_Seek (Merge []) tid = Some (Inl NilDereference) \<and>
   Iterator_Close (Merge []) = Inl NilDereference \<and>
   Iterator_Next (Intersect []) = Some (Inl NilDereference) \<and>
   Iterator_Seek (Intersect []) tid = Some (Inl NilDereference) \<and>
   Iterator_Close (Intersect []) = Inl NilDereference"
  by (simp add: Merge_def Intersect_def Iterator_Next_def Iterator_Seek_def Iterator_Close_def)

section \<open>The byte encodings\<close>

text \<open>
  The byte order of the encodings is the order of the numbers: what the spec says of
  \<open>encode_u64\<close> (lemma \<open>encodeUint64_less_iff\<close>).
\<close>

lemma unat_byte_less: "unat (x :: byte) < 256"
  using unsigned_less[of x, where 'a = nat] by simp

lemma be_val_less: "be_val xs < 256 ^ length xs"
proof (induction xs)
  case Nil
  then show ?case by simp
next
  case (Cons x xs)
  have "unat x * 256 ^ length xs + be_val xs < unat x * 256 ^ length xs + 256 ^ length xs"
    using Cons by simp
  also have "\<dots> = (unat x + 1) * 256 ^ length xs" by simp
  also have "\<dots> \<le> 256 * 256 ^ length xs"
    using unat_byte_less[of x] by (intro mult_right_mono) simp_all
  finally show ?case by simp
qed

lemma be_val_less_mono:
  "length a = length b \<Longrightarrow> a < b \<Longrightarrow> be_val a < be_val b"
proof (induction a b rule: list_induct2)
  case Nil
  then show ?case by simp
next
  case (Cons x xs y ys)
  from Cons.prems have "x < y \<or> x = y \<and> xs < ys" by simp
  then show ?case
  proof
    assume "x < y"
    then have "unat x + 1 \<le> unat y" by (simp add: word_less_nat_alt)
    then have "(unat x + 1) * 256 ^ length xs \<le> unat y * 256 ^ length xs"
      by (rule mult_right_mono) simp
    moreover have "be_val xs < 256 ^ length xs" by (rule be_val_less)
    ultimately have "unat x * 256 ^ length xs + be_val xs < unat y * 256 ^ length xs"
      by simp
    then show ?thesis using Cons.hyps by simp
  next
    assume "x = y \<and> xs < ys"
    with Cons.IH show ?thesis using Cons.hyps by simp
  qed
qed

lemma ucast_drop_bit_byte:
  "(ucast (drop_bit (8 * i) (x::u64)) :: byte) = word_of_nat (unat x div 256 ^ i)"
proof -
  have "(ucast (drop_bit (8 * i) x) :: byte) = word_of_nat (unat (drop_bit (8 * i) x))"
    by simp
  also have "unat (drop_bit (8 * i) x) = drop_bit (8 * i) (unat x)"
    by (rule unat_drop_bit_eq)
  also have "drop_bit (8 * i) (unat x) = unat x div 2 ^ (8 * i)"
    by (rule drop_bit_eq_div)
  also have "(2::nat) ^ (8 * i) = 256 ^ i" by (simp add: power_mult)
  finally show ?thesis .
qed

lemma be_enc_map: "be_enc k n = map (\<lambda>i. word_of_nat (n div 256 ^ i)) (rev [0..<k])"
  by (induction k) simp_all

lemma be_enc_8:
  "be_enc 8 n = map (\<lambda>i. word_of_nat (n div 256 ^ i)) [7, 6, 5, 4, 3, 2, 1, 0]"
proof -
  have "rev [0..<8] = [7, 6, 5, 4, 3, 2, 1, 0::nat]" by code_simp
  then show ?thesis by (simp only: be_enc_map)
qed

lemma encodeUint64_be_enc: "encodeUint64 x = be_enc 8 (unat x)"
  by (simp only: encodeUint64_def ucast_drop_bit_byte be_enc_8)

lemma foldl_be_val:
  "foldl (\<lambda>a x. a * 256 + ucast x) (a::u64) (bs::bytes) =
     a * 256 ^ length bs + word_of_nat (be_val bs)"
proof (induction bs arbitrary: a)
  case Nil
  then show ?case by simp
next
  case (Cons x xs)
  show ?case unfolding foldl_Cons Cons.IH by (simp add: algebra_simps)
qed

lemma decodeUint64_be_val: "decodeUint64 b = word_of_nat (be_val (take 8 b))"
  by (simp add: decodeUint64_def foldl_be_val)

lemma unat_decodeUint64: "length b = 8 \<Longrightarrow> unat (decodeUint64 b) = be_val b"
proof -
  assume l: "length b = 8"
  have "be_val b < 256 ^ 8" using be_val_less[of b] l by simp
  then have "be_val b mod 2 ^ 64 = be_val b" by simp
  then show ?thesis using l by (simp add: decodeUint64_be_val unat_of_nat)
qed

lemma decodeUint64_mono:
  assumes "length a = 8" "length b = 8" "a \<le> b"
  shows "decodeUint64 a \<le> decodeUint64 b"
proof (cases "a = b")
  case True
  then show ?thesis by simp
next
  case False
  with assms(3) have "a < b" by simp
  from be_val_less_mono[OF _ this] assms show ?thesis
    by (simp add: word_le_nat_alt unat_decodeUint64)
qed

lemma length_be_enc: "length (be_enc k n) = k"
  by (induction k) simp_all

lemma be_val_be_enc: "be_val (be_enc k n) = n mod 256 ^ k"
proof (induction k)
  case 0
  then show ?case by simp
next
  case (Suc k)
  have "unat (word_of_nat (n div 256 ^ k) :: byte) = n div 256 ^ k mod 256"
    by (simp add: unat_of_nat)
  then have "be_val (be_enc (Suc k) n) = (n div 256 ^ k mod 256) * 256 ^ k + n mod 256 ^ k"
    using Suc by (simp add: length_be_enc)
  also have "\<dots> = n mod (256 ^ k * 256)"
    by (simp add: mod_mult2_eq)
  finally show ?case by (simp add: mult.commute)
qed

lemma length_encodeUint64: "length (encodeUint64 x) = 8"
  by (simp add: encodeUint64_def)

lemma decodeUint64_encodeUint64: "decodeUint64 (encodeUint64 x) = x"
proof -
  have "unat x < 256 ^ 8" using unsigned_less[of x, where 'a = nat] by simp
  then have "be_val (encodeUint64 x) = unat x"
    by (simp add: encodeUint64_be_enc be_val_be_enc)
  then show ?thesis
    using length_encodeUint64[of x] by (simp add: decodeUint64_be_val)
qed

lemma encodeUint64_inj: "encodeUint64 x = encodeUint64 y \<Longrightarrow> x = y"
  by (metis decodeUint64_encodeUint64)

lemma encodeUint64_less_iff: "encodeUint64 a < encodeUint64 b \<longleftrightarrow> a < b"
proof
  assume l: "encodeUint64 a < encodeUint64 b"
  then have "encodeUint64 a \<le> encodeUint64 b" by simp
  from decodeUint64_mono[OF length_encodeUint64 length_encodeUint64 this]
  have "a \<le> b" by (simp add: decodeUint64_encodeUint64)
  moreover have "a \<noteq> b" using l by auto
  ultimately show "a < b" by simp
next
  assume l: "a < b"
  have "\<not> encodeUint64 b \<le> encodeUint64 a"
  proof
    assume "encodeUint64 b \<le> encodeUint64 a"
    from decodeUint64_mono[OF length_encodeUint64 length_encodeUint64 this]
    have "b \<le> a" by (simp add: decodeUint64_encodeUint64)
    with l show False by simp
  qed
  then show "encodeUint64 a < encodeUint64 b" by simp
qed

section \<open>The skiplist cursor\<close>

lemma map_of_bucket_insert: "map_of (bucket_insert k v b) = (map_of b)(k \<mapsto> v)"
  by (induction b) (auto simp: fun_upd_twist)

lemma set_fst_bucket_insert: "fst ` set (bucket_insert k v b) = insert k (fst ` set b)"
proof -
  have "fst ` set (bucket_insert k v b) = dom (map_of (bucket_insert k v b))"
    by (simp only: dom_map_of_conv_image_fst)
  also have "\<dots> = insert k (dom (map_of b))"
    by (simp only: map_of_bucket_insert dom_fun_upd option.simps if_False)
  also have "\<dots> = insert k (fst ` set b)"
    by (simp only: dom_map_of_conv_image_fst)
  finally show ?thesis .
qed

lemma sorted_bucket_insert:
  "sorted_wrt (<) (map fst b) \<Longrightarrow> sorted_wrt (<) (map fst (bucket_insert k v b))"
proof (induction b)
  case Nil
  then show ?case by simp
next
  case (Cons e b)
  obtain k' v' where e: "e = (k', v')" by (cases e)
  consider (lt) "k < k'" | (eq) "k = k'" | (gt) "k' < k" by (meson linorder_less_linear)
  then show ?case
  proof cases
    case lt
    with Cons.prems e show ?thesis by (auto intro: less_trans)
  next
    case eq
    with Cons.prems e show ?thesis by auto
  next
    case gt
    then have n: "\<not> k < k'" "k \<noteq> k'" by (auto dest: less_not_sym)
    have "\<forall>x \<in> fst ` set (bucket_insert k v b). k' < x"
      using Cons.prems e gt by (auto simp: set_fst_bucket_insert)
    with Cons e n show ?thesis by auto
  qed
qed

lemma list_all_bucket_insert:
  "list_all P b \<Longrightarrow> P (k, v) \<Longrightarrow> list_all P (bucket_insert k v b)"
  by (induction b) auto

lemma skiplist_bucket_insert:
  "skiplist_bucket b \<Longrightarrow>
   skiplist_bucket (bucket_insert (encodeUint64 d) (encodeUint64 p) b)"
  by (simp add: skiplist_bucket_def sorted_bucket_insert list_all_bucket_insert
      length_encodeUint64)

lemma bucket_Put_encodeUint64:
  "bucket_Put b (encodeUint64 d) (encodeUint64 p) =
     (None, bucket_insert (encodeUint64 d) (encodeUint64 p) b)"
  by (simp add: bucket_Put_def length_encodeUint64 MaxKeySize_def MaxValueSize_def)

lemma sorted_last_greatest:
  fixes ks :: "bytes list"
  assumes "sorted_wrt (<) ks" "k \<in> set ks"
  shows "k \<le> last ks"
proof -
  from assms(2) obtain i where i: "i < length ks" "k = ks ! i"
    by (auto simp: in_set_conv_nth)
  then have ne: "ks \<noteq> []" by auto
  show ?thesis
  proof (cases "i = length ks - 1")
    case True
    with i ne show ?thesis by (simp add: last_conv_nth)
  next
    case False
    with i have "i < length ks - 1" by simp
    moreover have "length ks - 1 < length ks" using ne by simp
    ultimately have "ks ! i < ks ! (length ks - 1)"
      using assms(1) by (simp add: sorted_wrt_nth_less)
    with i ne show ?thesis by (simp add: last_conv_nth)
  qed
qed

lemma cursor_Last_greatest:
  assumes b: "skiplist_bucket b" and e: "e \<in> set b"
  shows "\<exists>kl vl c. cursor_Last b = (Some (kl, vl), c) \<and> (kl, vl) \<in> set b \<and>
           decodeUint64 (fst e) \<le> decodeUint64 kl"
proof -
  from e have ne: "b \<noteq> []" by auto
  obtain kl vl where l: "last b = (kl, vl)" by (cases "last b")
  have inb: "(kl, vl) \<in> set b" using ne l last_in_set[of b] by simp
  have cl: "cursor_Last b = (Some (kl, vl), Some (length b - 1))"
    using ne l by (simp add: cursor_Last_def last_conv_nth)
  have len: "length (fst e) = 8" "length kl = 8"
    using b e inb by (auto simp: skiplist_bucket_def list_all_iff)
  have "fst e \<le> last (map fst b)"
    using b e by (intro sorted_last_greatest) (auto simp: skiplist_bucket_def)
  then have "fst e \<le> kl" using ne l by (simp add: last_map)
  from decodeUint64_mono[OF len this] cl inb show ?thesis by blast
qed

text \<open>
  Claim C7. On a skiplist bucket (keys ascending, every key and value an 8-byte
  encoding), \<open>append(last_id, page_id)\<close> of \<open>postings.go\<close> fails with \<open>errOutOfOrder\<close>
  if and only if some entry of the bucket has a key that decodes to \<open>last_id\<close> or more:
  the code looks at the greatest key only (\<open>cursor_Last_greatest\<close>). It fails in no other
  way; when it succeeds the bucket is the old one with \<open>last_id \<mapsto> page_id\<close> put in, and
  when it fails the bucket is unchanged.
\<close>

theorem boltSkiplistCursor_append_OutOfOrder_iff:
  assumes "skiplist_bucket (sc_bkt s)"
  shows "(fst (boltSkiplistCursor_append s d p) = Some ErrOutOfOrder \<longleftrightarrow>
            (\<exists>e \<in> set (sc_bkt s). d \<le> decodeUint64 (fst e))) \<and>
         (fst (boltSkiplistCursor_append s d p) = None \<or>
            fst (boltSkiplistCursor_append s d p) = Some ErrOutOfOrder) \<and>
         (fst (boltSkiplistCursor_append s d p) = None \<longrightarrow>
            sc_bkt (snd (boltSkiplistCursor_append s d p)) =
              bucket_insert (encodeUint64 d) (encodeUint64 p) (sc_bkt s) \<and>
            map_of (sc_bkt (snd (boltSkiplistCursor_append s d p))) =
              (map_of (sc_bkt s))(encodeUint64 d \<mapsto> encodeUint64 p) \<and>
            skiplist_bucket (sc_bkt (snd (boltSkiplistCursor_append s d p)))) \<and>
         (fst (boltSkiplistCursor_append s d p) \<noteq> None \<longrightarrow>
            sc_bkt (snd (boltSkiplistCursor_append s d p)) = sc_bkt s)"
proof (cases "\<exists>e \<in> set (sc_bkt s). d \<le> decodeUint64 (fst e)")
  case True
  then obtain e where e: "e \<in> set (sc_bkt s)" "d \<le> decodeUint64 (fst e)" by blast
  from cursor_Last_greatest[OF assms e(1)] obtain kl vl c where
    l: "cursor_Last (sc_bkt s) = (Some (kl, vl), c)" "decodeUint64 (fst e) \<le> decodeUint64 kl"
    by blast
  from e(2) l(2) have "d \<le> decodeUint64 kl" by (rule order_trans)
  then have "boltSkiplistCursor_append s d p = (Some ErrOutOfOrder, s\<lparr>sc_c := c\<rparr>)"
    by (simp add: boltSkiplistCursor_append_def l(1))
  with True show ?thesis by simp
next
  case False
  have ok: "boltSkiplistCursor_append s d p =
      (None, s\<lparr>sc_c := snd (cursor_Last (sc_bkt s)),
               sc_bkt := bucket_insert (encodeUint64 d) (encodeUint64 p) (sc_bkt s)\<rparr>)"
  proof (cases "sc_bkt s = []")
    case True
    then show ?thesis
      by (simp add: boltSkiplistCursor_append_def cursor_Last_def bucket_Put_encodeUint64)
  next
    case ne: False
    obtain kl vl where l: "last (sc_bkt s) = (kl, vl)" by (cases "last (sc_bkt s)")
    then have "(kl, vl) \<in> set (sc_bkt s)" using ne last_in_set[of "sc_bkt s"] by simp
    with False have "\<not> d \<le> decodeUint64 kl" by force
    then show ?thesis using ne l
      by (simp add: boltSkiplistCursor_append_def cursor_Last_def bucket_Put_encodeUint64
          last_conv_nth)
  qed
  with False assms show ?thesis
    by (simp add: map_of_bucket_insert skiplist_bucket_insert)
qed

text \<open>The theorem on the bucket \<open>{3 \<mapsto> 1}\<close>: appending \<open>(3, 2)\<close> fails, appending \<open>(5, 2)\<close> succeeds.\<close>

theorem boltSkiplistCursor_append_OutOfOrder_iff_witness:
  "skiplist_bucket [(encodeUint64 3, encodeUint64 1)] \<and>
   fst (boltSkiplistCursor_append
          \<lparr>sc_k = 7, sc_c = None, sc_bkt = [(encodeUint64 3, encodeUint64 1)]\<rparr> 3 2) =
     Some ErrOutOfOrder \<and>
   fst (boltSkiplistCursor_append
          \<lparr>sc_k = 7, sc_c = None, sc_bkt = [(encodeUint64 3, encodeUint64 1)]\<rparr> 5 2) = None \<and>
   sc_bkt (snd (boltSkiplistCursor_append
          \<lparr>sc_k = 7, sc_c = None, sc_bkt = [(encodeUint64 3, encodeUint64 1)]\<rparr> 5 2)) =
     [(encodeUint64 3, encodeUint64 1), (encodeUint64 5, encodeUint64 2)]"
proof -
  define s where "s = \<lparr>sc_k = 7, sc_c = None, sc_bkt = [(encodeUint64 3, encodeUint64 1)]\<rparr>"
  have bkt: "sc_bkt s = [(encodeUint64 3, encodeUint64 1)]" by (simp add: s_def)
  have w: "skiplist_bucket (sc_bkt s)"
    by (simp add: bkt skiplist_bucket_def length_encodeUint64)
  have le3: "(3::u64) \<le> 3" by simp
  have le5: "\<not> (5::u64) \<le> 3" by code_simp
  have lt35: "(3::u64) < 5" by code_simp
  have e3: "\<exists>e \<in> set (sc_bkt s). (3::u64) \<le> decodeUint64 (fst e)"
    using le3 by (simp add: bkt decodeUint64_encodeUint64)
  have e5: "\<not> (\<exists>e \<in> set (sc_bkt s). (5::u64) \<le> decodeUint64 (fst e))"
    using le5 by (simp add: bkt decodeUint64_encodeUint64)
  have lt: "encodeUint64 3 < encodeUint64 5"
    using lt35 by (simp only: encodeUint64_less_iff)
  note t3 = boltSkiplistCursor_append_OutOfOrder_iff[OF w, of 3 2]
  note t5 = boltSkiplistCursor_append_OutOfOrder_iff[OF w, of 5 2]
  from t3[THEN conjunct1] e3
  have a: "fst (boltSkiplistCursor_append s 3 2) = Some ErrOutOfOrder" by (rule iffD2)
  from t5[THEN conjunct1] e5
  have "fst (boltSkiplistCursor_append s 5 2) \<noteq> Some ErrOutOfOrder" by simp
  with t5[THEN conjunct2, THEN conjunct1]
  have b: "fst (boltSkiplistCursor_append s 5 2) = None" by simp
  from t5[THEN conjunct2, THEN conjunct2, THEN conjunct1, rule_format, OF b]
  have "sc_bkt (snd (boltSkiplistCursor_append s 5 2)) =
      bucket_insert (encodeUint64 5) (encodeUint64 2) (sc_bkt s)" by (rule conjunct1)
  also have "\<dots> = [(encodeUint64 3, encodeUint64 1), (encodeUint64 5, encodeUint64 2)]"
    using lt less_not_sym[OF lt] by (auto simp: bkt)
  finally have c: "sc_bkt (snd (boltSkiplistCursor_append s 5 2)) =
      [(encodeUint64 3, encodeUint64 1), (encodeUint64 5, encodeUint64 2)]" .
  from w a b c show ?thesis unfolding s_def bkt[unfolded s_def] by (intro conjI)
qed

section \<open>The postings store: \<open>Append\<close> and \<open>Close\<close>\<close>

text \<open>
  Claim C5 says that after every successful \<open>Append\<close> each skiplist entry's key is the
  maximum ID of the page it refers to. \<open>Append\<close> of the one ID 5 to a new postings list
  succeeds and leaves the entry \<open>0 \<mapsto> page 1\<close>, while page 1 holds the ID 5: \<open>lastID\<close> is
  set in the loop only, and the loop does not run when \<open>ids[1:]\<close> is empty. The store
  before the call satisfies the invariant, the store after it does not. (The page size
  does not matter here; 4096 is the spec's example.)
\<close>

theorem Append_single_ID_breaks_skiplist_invariant:
  "Append io_ok 4096 [(1, [5])] NewPostings =
     (None,
      \<lparr>ps_skiplist = Some [(encodeUint64 1, [(encodeUint64 0, encodeUint64 1)])],
       ps_pb = \<lparr>pb_pages = [(1, [5])], pb_next = 2\<rparr>,
       ps_db_open = True, ps_pb_open = True\<rparr>,
      [PbBegin, DbBegin, DbCommit, PbCommit]) \<and>
   skiplist_invariant NewPostings \<and>
   \<not> skiplist_invariant (fst (snd (Append io_ok 4096 [(1, [5])] NewPostings)))"
  by code_simp

text \<open>
  Three more runs, with a page buffer of 9 bytes (a page then holds two IDs whose
  delta is below 128). When a new page fills over, the entry for it is keyed by the ID
  that did not fit, \<open>ids[i]\<close>, which is the first ID of the next page: pages \<open>[1, 2]\<close> and
  \<open>[3, 4]\<close> get the keys 3 and 4.
\<close>

lemma Append_page_rollover_key:
  "Append io_ok 9 [(1, [1, 2, 3, 4])] NewPostings =
     (None,
      \<lparr>ps_skiplist = Some [(encodeUint64 1,
         [(encodeUint64 3, encodeUint64 1), (encodeUint64 4, encodeUint64 2)])],
       ps_pb = \<lparr>pb_pages = [(1, [1, 2]), (2, [3, 4])], pb_next = 3\<rparr>,
       ps_db_open = True, ps_pb_open = True\<rparr>,
      [PbBegin, DbBegin, DbCommit, PbCommit])"
  by code_simp

text \<open>
  When the ID that did not fit is the last of the batch, the entry for the last page is
  appended under the same key and the call fails with \<open>errOutOfOrder\<close>, although the
  batch is ascending.
\<close>

lemma Append_page_rollover_at_last_ID_fails:
  "fst (Append io_ok 9 [(1, [1, 2, 3])] NewPostings) = Some ErrOutOfOrder"
  by code_simp

text \<open>
  A later \<open>Append\<close> to the same list writes the tail page with \<open>Set\<close> and leaves its
  entry's key as it was: the page holds 5, 6, 7 under the key 6.
\<close>

lemma Append_to_tail_page_keeps_key:
  "(case Append io_ok 4096 [(1, [5, 6])] NewPostings of
      (e, p, t) \<Rightarrow> Append io_ok 4096 [(1, [7])] p) =
     (None,
      \<lparr>ps_skiplist = Some [(encodeUint64 1, [(encodeUint64 6, encodeUint64 1)])],
       ps_pb = \<lparr>pb_pages = [(1, [5, 6, 7])], pb_next = 2\<rparr>,
       ps_db_open = True, ps_pb_open = True\<rparr>,
      [PbBegin, DbBegin, DbCommit, PbCommit])"
  by code_simp

text \<open>The \<open>append\<close> of \<open>bolt.go\<close> stores the page ID as the key.\<close>

lemma bolt_go_append_stores_page_ID_as_key:
  "sc_bkt (snd (bolt_go_boltSkiplistCursor_append \<lparr>sc_k = 1, sc_c = None, sc_bkt = []\<rparr> 5 1)) =
     [(encodeUint64 1, encodeUint64 1)]"
  by code_simp

text \<open>
  Claim C6 says that \<open>Append\<close> commits the blob store before the KV store, and that on
  any failure both transactions are rolled back and nothing becomes visible. In a
  successful call the KV transaction is committed first, by \<open>db.Update\<close>, and the blob
  transaction after it; and when the blob commit fails the call returns the error
  while the skiplist entry it wrote is committed.
\<close>

theorem Append_commits_KV_store_first:
  "snd (snd (Append io_ok 4096 [(1, [5])] NewPostings)) =
     [PbBegin, DbBegin, DbCommit, PbCommit] \<and>
   fst (Append (io_ok\<lparr>env_pb_commit := Some ErrIO\<rparr>) 4096 [(1, [5])] NewPostings) = Some ErrIO \<and>
   ps_skiplist (fst (snd (Append (io_ok\<lparr>env_pb_commit := Some ErrIO\<rparr>) 4096 [(1, [5])] NewPostings))) =
     Some [(encodeUint64 1, [(encodeUint64 0, encodeUint64 1)])] \<and>
   ps_skiplist NewPostings = Some []"
  by code_simp

text \<open>
  Claim C6 as amended. \<open>Append\<close> begins a write transaction on the blob store and then,
  with \<open>db.Update\<close>, on the KV store, and applies every batch; a call that returns no
  error has committed the KV transaction and then the blob transaction, and has
  applied all batches. When the call returns an error and it is not the blob commit
  that failed (a \<open>Begin\<close>, a batch or the KV commit failed), the transactions that were
  begun are rolled back and both stores are as they were.
\<close>

theorem Append_transactions:
  "(fst (Append env cap batches p) = None \<longrightarrow>
      snd (snd (Append env cap batches p)) = [PbBegin, DbBegin, DbCommit, PbCommit] \<and>
      (\<exists>sl. ps_skiplist p = Some sl \<and>
         apply_batches cap sl (ps_pb p) batches =
           Inr (the (ps_skiplist (fst (snd (Append env cap batches p)))),
                ps_pb (fst (snd (Append env cap batches p)))))) \<and>
   (fst (Append env cap batches p) \<noteq> None \<and>
    PbCommitFailed \<notin> set (snd (snd (Append env cap batches p))) \<longrightarrow>
      fst (snd (Append env cap batches p)) = p \<and>
      (snd (snd (Append env cap batches p)) = [] \<or>
       snd (snd (Append env cap batches p)) = [PbBegin, PbRollback] \<or>
       snd (snd (Append env cap batches p)) = [PbBegin, DbBegin, DbRollback, PbRollback]))"
  by (auto simp: Append_def split: option.splits sum.splits prod.splits)

text \<open>
  The theorem at the spec's scenario "out-of-order rejected" (the batch \<open>[5, 3]\<close>) and
  at a batch that is applied.
\<close>

theorem Append_transactions_witness:
  "fst (Append io_ok 4096 [(1, [5, 3])] NewPostings) = Some ErrOutOfOrder \<and>
   fst (snd (Append io_ok 4096 [(1, [5, 3])] NewPostings)) = NewPostings \<and>
   snd (snd (Append io_ok 4096 [(1, [5, 3])] NewPostings)) =
     [PbBegin, DbBegin, DbRollback, PbRollback] \<and>
   fst (Append io_ok 4096 [(1, [5])] NewPostings) = None \<and>
   snd (snd (Append io_ok 4096 [(1, [5])] NewPostings)) = [PbBegin, DbBegin, DbCommit, PbCommit]"
proof -
  have e: "fst (Append io_ok 4096 [(1, [5, 3])] NewPostings) = Some ErrOutOfOrder"
    by code_simp
  have t: "snd (snd (Append io_ok 4096 [(1, [5, 3])] NewPostings)) =
     [PbBegin, DbBegin, DbRollback, PbRollback]"
    by code_simp
  have ok: "fst (Append io_ok 4096 [(1, [5])] NewPostings) = None"
    by code_simp
  from e t Append_transactions[of io_ok 4096 "[(1, [5, 3])]" NewPostings]
  have same: "fst (snd (Append io_ok 4096 [(1, [5, 3])] NewPostings)) = NewPostings" by simp
  from ok Append_transactions[of io_ok 4096 "[(1, [5])]" NewPostings]
  have tr: "snd (snd (Append io_ok 4096 [(1, [5])] NewPostings)) = [PbBegin, DbBegin, DbCommit, PbCommit]"
    by simp
  from e same t ok tr show ?thesis by (intro conjI)
qed

text \<open>
  Claim C8 says that \<open>Close\<close> closes both handles of the postings store. \<open>Close\<close>
  returns \<open>p.db.Close()\<close>: the KV store is closed and the paged blob store, opened by
  \<open>NewPostings\<close>, stays open.
\<close>

theorem postingsStore_Close_leaves_blob_store_open:
  "postingsStore_Close NewPostings = (None, NewPostings\<lparr>ps_db_open := False\<rparr>) \<and>
   ps_db_open (snd (postingsStore_Close p)) = False \<and>
   ps_pb_open (snd (postingsStore_Close p)) = ps_pb_open p"
  by (simp add: postingsStore_Close_def)

section \<open>The claims about the series dictionary\<close>

text \<open>
  In the examples the label keys \<open>a\<close>, \<open>b\<close>, \<open>c\<close> are the byte strings \<open>[0x61]\<close>,
  \<open>[0x62]\<close>, \<open>[0x63]\<close> and the label values \<open>1\<close>, \<open>2\<close>, \<open>3\<close>, \<open>4\<close> the byte strings
  \<open>[0x31]\<close>, \<open>[0x32]\<close>, \<open>[0x33]\<close>, \<open>[0x34]\<close>.
\<close>

text \<open>
  The slice \<open>k\<close> that \<open>ensureLabel\<close> builds, in general: both calls of \<open>copy\<close> read
  \<open>val\<close>, so the part before the separator is \<open>val\<close>, cut or filled with zero bytes to
  the length of \<open>key\<close>, and no byte of \<open>key\<close> is stored.
\<close>

lemma ensureLabel_k_eq:
  "ensureLabel_k key val =
     take (length key) val @ replicate (length key - length val) 0 @ [seperator] @ val"
proof -
  let ?n = "length key" and ?m = "length val"
  let ?k0 = "replicate (?n + ?m + 1) (0 :: byte)"
  have t: "take ?n ?k0 = replicate ?n 0" by (simp only: take_replicate, simp)
  have d: "drop ?n ?k0 = replicate (?m + 1) 0" by (simp only: drop_replicate, simp)
  have c1: "go_copy (replicate ?n 0) val = take ?n val @ replicate (?n - ?m) 0"
    by (simp add: go_copy_def min_def)
  let ?k1 = "(take ?n val @ replicate (?n - ?m) 0) @ replicate (?m + 1) (0 :: byte)"
  have l1: "length (take ?n val @ replicate (?n - ?m) (0 :: byte)) = ?n" by simp
  have k2: "?k1[?n := seperator] =
      (take ?n val @ replicate (?n - ?m) 0) @ seperator # replicate ?m 0"
    by (subst list_update_append) (simp only: l1, simp)
  have tk: "take (?n + 1) (?k1[?n := seperator]) =
      (take ?n val @ replicate (?n - ?m) 0) @ [seperator]"
    unfolding k2 using l1 by simp
  have dk: "drop (?n + 1) (?k1[?n := seperator]) = replicate ?m 0"
    unfolding k2 using l1 by simp
  have c2: "go_copy (replicate ?m 0) val = val" by (simp add: go_copy_def)
  show ?thesis
    unfolding ensureLabel_k_def Let_def t d c1 tk dk c2 by simp
qed

text \<open>\<open>ensureSeries\<close> looks up and writes \<open>IDToSeries\<close> only: it never writes \<open>seriesToID\<close>.\<close>

lemma ensureLabel_seriesToID: "seriesToID (snd (ensureLabel s key val)) = seriesToID s"
  by (simp add: ensureLabel_def Let_def Bucket_NextSequence_def Bucket_Put_def
      split: option.splits prod.splits)

lemma ensureLabels_seriesToID: "seriesToID (snd (ensureLabels s skey desc)) = seriesToID s"
proof (induction desc arbitrary: s skey)
  case Nil
  show ?case by simp
next
  case (Cons kv desc)
  obtain k v where kv: "kv = (k, v)" by (cases kv)
  obtain key err s' where e: "ensureLabel s k v = ((key, err), s')"
    by (metis prod.exhaust)
  have s': "seriesToID s' = seriesToID s" using ensureLabel_seriesToID[of s k v] e by simp
  show ?case
  proof (cases err)
    case None
    with e kv Cons.IH[of s' "skey @ [key]"] s' show ?thesis by simp
  next
    case (Some a)
    with e kv s' show ?thesis by simp
  qed
qed

lemma ensureSeries_seriesToID: "seriesToID (snd (ensureSeries s desc)) = seriesToID s"
proof -
  obtain r s1 where e: "ensureLabels s [] desc = (r, s1)" by (cases "ensureLabels s [] desc")
  have s1: "seriesToID s1 = seriesToID s" using ensureLabels_seriesToID[of s "[]" desc] e by simp
  show ?thesis
    using s1
    by (simp add: ensureSeries_def e Let_def Bucket_NextSequence_def Bucket_Put_def
        split: sum.splits option.splits prod.splits)
qed

text \<open>
  Claim C1 says that every call of \<open>ensureSeries\<close> with the same label-set returns the
  same series ID. On the store as \<open>newBoltSeriesStore\<close> creates it, the first call with
  \<open>{a: 1, b: 2}\<close> returns the ID 1 and the second call, on the buckets as the first
  left them, returns the ID 2, in whichever order \<open>range\<close> visits the two labels: the
  series key is looked up in \<open>IDToSeries\<close>, whose keys are the varints of the series
  IDs, so the series key \<open>[1, 2]\<close> is not found and a new ID is allocated.
\<close>

theorem ensureSeries_second_call_allocates_new_ID:
  "fst (ensureSeries (newBoltSeriesStore_Begin True) [([0x61], [0x31]), ([0x62], [0x32])]) =
     (1, [1, 2], None) \<and>
   fst (ensureSeries
          (snd (ensureSeries (newBoltSeriesStore_Begin True)
                  [([0x61], [0x31]), ([0x62], [0x32])]))
          [([0x61], [0x31]), ([0x62], [0x32])]) = (2, [1, 2], None) \<and>
   fst (ensureSeries
          (snd (ensureSeries (newBoltSeriesStore_Begin True)
                  [([0x61], [0x31]), ([0x62], [0x32])]))
          [([0x62], [0x32]), ([0x61], [0x31])]) = (2, [1, 2], None) \<and>
   fst (ensureSeries (newBoltSeriesStore_Begin True) [([0x62], [0x32]), ([0x61], [0x31])]) =
     (1, [1, 2], None) \<and>
   fst (ensureSeries
          (snd (ensureSeries (newBoltSeriesStore_Begin True)
                  [([0x62], [0x32]), ([0x61], [0x31])]))
          [([0x62], [0x32]), ([0x61], [0x31])]) = (2, [1, 2], None) \<and>
   fst (ensureSeries
          (snd (ensureSeries (newBoltSeriesStore_Begin True)
                  [([0x62], [0x32]), ([0x61], [0x31])]))
          [([0x61], [0x31]), ([0x62], [0x32])]) = (2, [1, 2], None)"
  by code_simp

text \<open>
  The scenario "ensure-sets idempotence" of the spec: the label-sets \<open>{a: 1, b: 2}\<close>,
  \<open>{a: 1, b: 3}\<close>, \<open>{c: 4}\<close> and \<open>{a: 1, b: 2}\<close> again get the IDs 1, 2, 3 and 4, where the
  spec has \<open>[s1, s2, s3, s1]\<close>.
\<close>

lemma ensureSeries_scenario_ensure_sets:
  "map fst
     [fst (ensureSeries (newBoltSeriesStore_Begin True) [([0x61], [0x31]), ([0x62], [0x32])]),
      fst (ensureSeries
             (snd (ensureSeries (newBoltSeriesStore_Begin True)
                     [([0x61], [0x31]), ([0x62], [0x32])]))
             [([0x61], [0x31]), ([0x62], [0x33])]),
      fst (ensureSeries
             (snd (ensureSeries
                     (snd (ensureSeries (newBoltSeriesStore_Begin True)
                             [([0x61], [0x31]), ([0x62], [0x32])]))
                     [([0x61], [0x31]), ([0x62], [0x33])]))
             [([0x63], [0x34])]),
      fst (ensureSeries
             (snd (ensureSeries
                     (snd (ensureSeries
                             (snd (ensureSeries (newBoltSeriesStore_Begin True)
                                     [([0x61], [0x31]), ([0x62], [0x32])]))
                             [([0x61], [0x31]), ([0x62], [0x33])]))
                     [([0x63], [0x34])]))
             [([0x61], [0x31]), ([0x62], [0x32])])] = [1, 2, 3, 4]"
  by code_simp

text \<open>
  Claim C2 says that \<open>ensureLabel\<close> stores the label under the key \<open>key\<close>, separator,
  \<open>value\<close>, that the reverse map returns the original pair, and that the series ID of
  a label-set resolves back to that label-set. For the label \<open>(a, 1)\<close> on the store as
  \<open>newBoltSeriesStore\<close> creates it, \<open>ensureLabel\<close> returns the ID 1 and stores the bytes
  \<open>1\<close>, separator, \<open>1\<close>: the first \<open>copy\<close> writes \<open>val\<close> where \<open>key\<close> belongs. \<open>label(1)\<close>
  then returns the pair \<open>(1, 1)\<close>, not \<open>(a, 1)\<close>, also after \<open>ensureSeries\<close> of the
  label-set \<open>{a: 1}\<close>, whose labels \<open>series\<close> resolves through \<open>label\<close>.
\<close>

theorem ensureLabel_stores_value_in_place_of_key:
  "ensureLabel_k [0x61] [0x31] = [0x31, seperator, 0x31] \<and>
   fst (ensureLabel (newBoltSeriesStore_Begin True) [0x61] [0x31]) = (1, None) \<and>
   bk_kv (labelToID (snd (ensureLabel (newBoltSeriesStore_Begin True) [0x61] [0x31]))) =
     [([0x31, seperator, 0x31], putUvarint 1)] \<and>
   bk_kv (IDToLabel (snd (ensureLabel (newBoltSeriesStore_Begin True) [0x61] [0x31]))) =
     [(putUvarint 1, [0x31, seperator, 0x31])] \<and>
   label (snd (ensureLabel (newBoltSeriesStore_Begin True) [0x61] [0x31])) 1 =
     Inr ([0x31], [0x31], None) \<and>
   fst (ensureSeries (newBoltSeriesStore_Begin True) [([0x61], [0x31])]) = (1, [1], None) \<and>
   label (snd (ensureSeries (newBoltSeriesStore_Begin True) [([0x61], [0x31])])) 1 =
     Inr ([0x31], [0x31], None)"
  by code_simp

text \<open>
  Two labels with the same value and keys of the same length get the same ID: after
  \<open>(a, 1)\<close>, the label \<open>(c, 1)\<close> is found under the bytes \<open>1\<close>, separator, \<open>1\<close>.
\<close>

lemma ensureLabel_same_ID_for_two_labels:
  "fst (ensureLabel (snd (ensureLabel (newBoltSeriesStore_Begin True) [0x61] [0x31]))
          [0x63] [0x31]) = (1, None)"
  by code_simp

text \<open>
  \<open>series\<close> on the series ID that \<open>ensureSeries\<close> returned for \<open>{a: 1}\<close>. With the series
  key stored as the spec has it, in 8 bytes for each label ID, the varints that
  \<open>series\<close> reads are seven times 0 and then 1, and \<open>label(0)\<close> fails. With the series
  key stored as the varints of the label IDs, \<open>series\<close> returns the label-set
  \<open>{1: 1}\<close>.
\<close>

lemma series_of_ensureSeries_fails:
  "series (snd (ensureSeries (newBoltSeriesStore_Begin True) [([0x61], [0x31])])) 1 =
     Inr (Inl ErrFmt)"
  by code_simp

lemma series_of_varint_series_key:
  "series
     ((snd (ensureLabel (newBoltSeriesStore_Begin True) [0x61] [0x31]))
        \<lparr>IDToSeries := \<lparr>bk_kv = [(putUvarint 1, putUvarint 1)], bk_sequence = 1\<rparr>\<rparr>) 1 =
     Inr (Inr [([0x31], [0x31])])"
  by code_simp

end
